theory Spec2Isabelle
  imports Main
begin

section \<open>Python strings\<close>

text \<open>
  Strings are lists of characters.  The helpers below are the \<^verbatim>\<open>str\<close> methods
  that \<^verbatim>\<open>rename2date.py\<close> calls and that do not depend on the character tables of
  the interpreter.  \<^verbatim>\<open>str.lower\<close> and \<^verbatim>\<open>str.strip\<close> do depend on them: they are
  taken from the environment below.
\<close>

definition startswith :: "string \<Rightarrow> string \<Rightarrow> bool" where
  "startswith s p = (take (length p) s = p)"

definition endswith :: "string \<Rightarrow> string \<Rightarrow> bool" where
  "endswith s p = (length p \<le> length s \<and> drop (length s - length p) s = p)"

text \<open>\<^verbatim>\<open>str(i)\<close> for a non-negative integer: its decimal digits, most significant first.\<close>

definition digit_char :: "nat \<Rightarrow> char" where
  "digit_char d = ''0123456789'' ! d"

fun str_nat :: "nat \<Rightarrow> string" where
  "str_nat n = (if n < 10 then [digit_char n]
                else str_nat (n div 10) @ [digit_char (n mod 10)])"

declare str_nat.simps [simp del]

definition str_bool :: "bool \<Rightarrow> string" where
  "str_bool b = (if b then ''True'' else ''False'')"

text \<open>\<^verbatim>\<open>s.split(c)\<close>: the pieces between the occurrences of \<open>c\<close>, empty pieces kept.\<close>

fun str_split :: "char \<Rightarrow> string \<Rightarrow> string list" where
  "str_split c [] = [[]]"
| "str_split c (x # xs) =
     (case str_split c xs of
        [] \<Rightarrow> (if x = c then [[], []] else [[x]])
      | piece # pieces \<Rightarrow> (if x = c then [] # piece # pieces else (x # piece) # pieces))"

fun str_join :: "string \<Rightarrow> string list \<Rightarrow> string" where
  "str_join s [] = []"
| "str_join s [x] = x"
| "str_join s (x # y # ys) = x @ s @ str_join s (y # ys)"

section \<open>\<^verbatim>\<open>os.path\<close> on a POSIX system\<close>

text \<open>
  The path functions are those of \<^verbatim>\<open>posixpath\<close>: the separator is \<open>/\<close>, the
  extension separator is \<open>.\<close>.  An index \<^verbatim>\<open>p.rfind(sep) + 1\<close> cuts a path into
  the part up to and including the last separator and the part after it.
\<close>

definition sep :: char where
  "sep = CHR ''/''"

definition extsep :: char where
  "extsep = CHR ''.''"

definition path_basename :: "string \<Rightarrow> string" where
  "path_basename p = rev (takeWhile (\<lambda>c. c \<noteq> sep) (rev p))"

definition path_head :: "string \<Rightarrow> string" where
  "path_head p = rev (dropWhile (\<lambda>c. c \<noteq> sep) (rev p))"

definition rstrip_sep :: "string \<Rightarrow> string" where
  "rstrip_sep h = rev (dropWhile (\<lambda>c. c = sep) (rev h))"

definition path_split :: "string \<Rightarrow> string \<times> string" where
  "path_split p =
     (let head = path_head p; tail = path_basename p
      in (if head \<noteq> [] \<and> head \<noteq> replicate (length head) sep then rstrip_sep head else head,
          tail))"

text \<open>
  \<^verbatim>\<open>splitext\<close>: the extension starts at the last dot of the last component, unless
  only dots precede it there.
\<close>

definition path_splitext :: "string \<Rightarrow> string \<times> string" where
  "path_splitext p =
     (let tail = path_basename p;
          ext = rev (takeWhile (\<lambda>c. c \<noteq> extsep) (rev tail));
          stem = rev (tl (dropWhile (\<lambda>c. c \<noteq> extsep) (rev tail)))
      in if extsep \<in> set tail \<and> (\<exists>c \<in> set stem. c \<noteq> extsep)
         then (path_head p @ stem, extsep # ext)
         else (p, []))"

definition path_join :: "string \<Rightarrow> string \<Rightarrow> string" where
  "path_join a b =
     (if startswith b [sep] then b
      else if a = [] \<or> endswith a [sep] then a @ b
      else a @ [sep] @ b)"

definition path_isabs :: "string \<Rightarrow> bool" where
  "path_isabs p = startswith p [sep]"

definition norm_step :: "bool \<Rightarrow> string list \<Rightarrow> string \<Rightarrow> string list" where
  "norm_step initial_slashes new_comps cmp =
     (if cmp = [] \<or> cmp = ''.'' then new_comps
      else if cmp \<noteq> ''..'' \<or> (\<not> initial_slashes \<and> new_comps = [])
              \<or> (new_comps \<noteq> [] \<and> last new_comps = ''..'')
           then new_comps @ [cmp]
      else if new_comps \<noteq> [] then butlast new_comps
      else new_comps)"

definition path_normpath :: "string \<Rightarrow> string" where
  "path_normpath path =
     (if path = [] then ''.''
      else
        let initial_slashes =
              (if startswith path [sep]
               then (if startswith path [sep, sep] \<and> \<not> startswith path [sep, sep, sep]
                     then 2 else 1)
               else (0::nat));
            comps = foldl (norm_step (initial_slashes \<noteq> 0)) [] (str_split sep path);
            joined = replicate initial_slashes sep @ str_join [sep] comps
        in if joined = [] then ''.'' else joined)"

text \<open>\<^verbatim>\<open>abspath\<close> reads the working directory, here the argument \<open>cwd\<close>.\<close>

definition path_abspath :: "string \<Rightarrow> string \<Rightarrow> string" where
  "path_abspath cwd path =
     path_normpath (if path_isabs path then path else path_join cwd path)"

section \<open>The pure functions of \<^verbatim>\<open>rename2date.py\<close>\<close>

definition build_prefixed_name :: "string \<Rightarrow> string \<Rightarrow> string" where
  "build_prefixed_name path prefix =
     (let (directory, filename) = path_split path;
          new_name = prefix @ ''_'' @ filename
      in path_join directory new_name)"

definition should_skip_already_prefixed :: "string \<Rightarrow> string \<Rightarrow> bool" where
  "should_skip_already_prefixed filename prefix = startswith filename (prefix @ ''_'')"

section \<open>The environment\<close>

text \<open>
  Everything the program asks of its environment is a field of the record \<open>os\<close>: the
  two \<^verbatim>\<open>str\<close> methods that read the character tables, the file system calls and
  the clock, taken over a state \<open>'fs\<close> of the machine (its files and its time), and the
  conversion and formatting of times.  The state of the machine changes by a
  successful \<^verbatim>\<open>os.rename\<close> only.  A call that raises an exception returns the
  exception's message on the left of a sum.  For \<^verbatim>\<open>getmtime\<close> the class of the
  exception matters, as the program catches \<^verbatim>\<open>OSError\<close> alone: it returns the
  time, \<open>OSError\<close>, or \<open>OtherError\<close> with the message (a \<^verbatim>\<open>ValueError\<close> for a path
  with a null character in it).

  Directories are read through iterators \<open>'it\<close>.  \<^verbatim>\<open>os.scandir\<close> opens one or
  raises; each \<^verbatim>\<open>next\<close> on it reads the machine in the state it has at that moment
  and gives an entry, the end, or an exception; \<^verbatim>\<open>entry.is_file()\<close> may raise too.
  \<^verbatim>\<open>os.walk\<close> makes its generator without touching the machine; each
  \<^verbatim>\<open>next\<close> on it gives a triple \<open>(root, dirs, files)\<close>, the end (also where a scan
  of its own fails with an \<^verbatim>\<open>OSError\<close>, which it swallows), or an exception.
\<close>

datatype dir_entry = DirEntry (entry_name: string) (entry_path: string)

datatype 'it scan = ScanStop | ScanEntry dir_entry 'it | ScanRaise string

datatype 'it walk = WalkStop | WalkTriple string "string list" "string list" 'it | WalkRaise string

datatype 'ts mtime = Mtime 'ts | OSError | OtherError string

record ('fs, 'ts, 'dt, 'it) os =
  str_lower :: "string \<Rightarrow> string"
  str_strip :: "string \<Rightarrow> string"
  os_path_exists :: "'fs \<Rightarrow> string \<Rightarrow> bool"
  os_path_isfile :: "'fs \<Rightarrow> string \<Rightarrow> bool"
  os_path_isdir :: "'fs \<Rightarrow> string \<Rightarrow> bool"
  os_path_getmtime :: "'fs \<Rightarrow> string \<Rightarrow> 'ts mtime"
  os_getcwd :: "'fs \<Rightarrow> string + string"
  os_walk :: "string \<Rightarrow> 'it"
  os_walk_next :: "'fs \<Rightarrow> 'it \<Rightarrow> 'it walk"
  os_scandir :: "'fs \<Rightarrow> string \<Rightarrow> string + 'it"
  os_scandir_next :: "'fs \<Rightarrow> 'it \<Rightarrow> 'it scan"
  os_entry_is_file :: "'fs \<Rightarrow> dir_entry \<Rightarrow> string + bool"
  os_rename :: "'fs \<Rightarrow> string \<Rightarrow> string \<Rightarrow> string + 'fs"
  datetime_now :: "'fs \<Rightarrow> 'dt"
  datetime_timestamp :: "'dt \<Rightarrow> 'ts"
  datetime_fromtimestamp :: "'ts \<Rightarrow> string + 'dt"
  datetime_strftime :: "'dt \<Rightarrow> string \<Rightarrow> string + string"

section \<open>The functions of \<^verbatim>\<open>rename2date.py\<close> that read the environment\<close>

definition normalize_ext :: "('fs, 'ts, 'dt, 'it) os \<Rightarrow> string \<Rightarrow> string" where
  "normalize_ext os ext0 =
     (let ext = str_strip os ext0
      in if ext = [] then []
         else str_lower os (if \<not> startswith ext ''.'' then ''.'' @ ext else ext))"

text \<open>
  \<^verbatim>\<open>iter_files\<close> is a generator.  Its state is \<open>Fresh\<close> before the first
  \<^verbatim>\<open>next\<close>, then inside the walk (with the root and the file names left of the
  current triple) or inside the scan.  A \<^verbatim>\<open>next\<close> gives \<open>Yield\<close> with a path and
  the state to go on from, \<open>Stop\<close> at the end, or \<open>Throw\<close> with the message of the
  exception that leaves the generator; \<open>None\<close> stands for a \<^verbatim>\<open>next\<close> that never
  returns.
\<close>

datatype 'it files_gen = Fresh string bool | InWalk 'it string "string list" | InScan 'it

datatype 'g step = Stop | Yield string 'g | Throw string

partial_function (option) iter_files_next ::
  "('fs, 'ts, 'dt, 'it) os \<Rightarrow> 'fs \<Rightarrow> 'it files_gen \<Rightarrow> 'it files_gen step option" where
  "iter_files_next os fs g =
     (case g of
        Fresh base_dir recursive \<Rightarrow>
          (if recursive then iter_files_next os fs (InWalk (os_walk os base_dir) [] [])
           else (case os_scandir os fs base_dir of
                   Inl e \<Rightarrow> Some (Throw e)
                 | Inr it \<Rightarrow> iter_files_next os fs (InScan it)))
      | InWalk w root files \<Rightarrow>
          (case files of
             name # names \<Rightarrow> Some (Yield (path_join root name) (InWalk w root names))
           | [] \<Rightarrow>
               (case os_walk_next os fs w of
                  WalkStop \<Rightarrow> Some Stop
                | WalkRaise e \<Rightarrow> Some (Throw e)
                | WalkTriple root' dirs files' w' \<Rightarrow>
                    iter_files_next os fs (InWalk w' root' files')))
      | InScan it \<Rightarrow>
          (case os_scandir_next os fs it of
             ScanStop \<Rightarrow> Some Stop
           | ScanRaise e \<Rightarrow> Some (Throw e)
           | ScanEntry entry it' \<Rightarrow>
               (case os_entry_is_file os fs entry of
                  Inl e \<Rightarrow> Some (Throw e)
                | Inr is_file \<Rightarrow>
                    if is_file then Some (Yield (entry_path entry) (InScan it'))
                    else iter_files_next os fs (InScan it'))))"

declare iter_files_next.simps [code]

text \<open>
  The loop of \<^verbatim>\<open>ensure_unique_path\<close> has no bound: it is a partial function, and
  \<open>None\<close> stands for a loop that never returns.
\<close>

partial_function (option) probe_unique ::
  "(string \<Rightarrow> bool) \<Rightarrow> string \<Rightarrow> string \<Rightarrow> string \<Rightarrow> nat \<Rightarrow> string option" where
  "probe_unique ex directory stem ext i =
     (if \<not> ex (path_join directory (stem @ ''-'' @ str_nat i @ ext))
      then Some (path_join directory (stem @ ''-'' @ str_nat i @ ext))
      else probe_unique ex directory stem ext (i + 1))"

declare probe_unique.simps [code]

definition ensure_unique_path ::
  "('fs, 'ts, 'dt, 'it) os \<Rightarrow> 'fs \<Rightarrow> string \<Rightarrow> string option" where
  "ensure_unique_path os fs target_path =
     (if \<not> os_path_exists os fs target_path then Some target_path
      else
        let (directory, filename) = path_split target_path;
            (stem, ext) = path_splitext filename
        in probe_unique (os_path_exists os fs) directory stem ext 1)"

text \<open>
  Only \<^verbatim>\<open>getmtime\<close> stands in the \<^verbatim>\<open>try\<close>, which catches \<^verbatim>\<open>OSError\<close>: any
  other exception of \<^verbatim>\<open>getmtime\<close>, and every exception of
  \<^verbatim>\<open>datetime.fromtimestamp\<close> or of \<^verbatim>\<open>strftime\<close>, leaves the function.
\<close>

definition get_modification_prefix ::
  "('fs, 'ts, 'dt, 'it) os \<Rightarrow> 'fs \<Rightarrow> string \<Rightarrow> string \<Rightarrow> string + string" where
  "get_modification_prefix os fs path pattern =
     (case (case os_path_getmtime os fs path of
              Mtime t \<Rightarrow> Inr t
            | OSError \<Rightarrow> Inr (datetime_timestamp os (datetime_now os fs))
            | OtherError e \<Rightarrow> Inl e) of
        Inl e \<Rightarrow> Inl e
      | Inr ts \<Rightarrow>
          (case datetime_fromtimestamp os ts of
             Inl e \<Rightarrow> Inl e
           | Inr dt \<Rightarrow> datetime_strftime os dt pattern))"

text \<open>\<^verbatim>\<open>os.path.abspath\<close> asks for the working directory when the path is relative.\<close>

definition os_path_abspath ::
  "('fs, 'ts, 'dt, 'it) os \<Rightarrow> 'fs \<Rightarrow> string \<Rightarrow> string + string" where
  "os_path_abspath os fs path =
     (if path_isabs path then Inr (path_normpath path)
      else (case os_getcwd os fs of
              Inl e \<Rightarrow> Inl e
            | Inr cwd \<Rightarrow> Inr (path_normpath (path_join cwd path))))"

section \<open>The application\<close>

text \<open>
  The state holds the five form variables, the lines of the log widget, the messages
  of the error dialogs shown, and the machine.  A handler that runs to its end gives
  \<open>Returned\<close>; one left by an exception that nothing catches gives \<open>Raised\<close> with the
  message and the state reached.
\<close>

record 'fs app =
  dir_var :: string
  ext_var :: string
  pattern_var :: string
  recursive_var :: bool
  skip_already_prefixed_var :: bool
  log :: "string list"
  shown_errors :: "string list"
  disk :: 'fs

datatype 'a outcome = Returned 'a | Raised string 'a

definition DEFAULT_PATTERN :: string where
  "DEFAULT_PATTERN = ''%Y-%m-%d-%H-%M-%S''"

definition log_msg :: "'fs app \<Rightarrow> string \<Rightarrow> 'fs app" where
  "log_msg s msg = s\<lparr>log := log s @ [msg]\<rparr>"

definition showerror :: "'fs app \<Rightarrow> string \<Rightarrow> 'fs app" where
  "showerror s msg = s\<lparr>shown_errors := shown_errors s @ [msg]\<rparr>"

definition validate_inputs ::
  "('fs, 'ts, 'dt, 'it) os \<Rightarrow> 'fs app \<Rightarrow> bool \<times> string \<times> string \<times> string" where
  "validate_inputs os s =
     (let directory = str_strip os (dir_var s)
      in if directory = [] then (False, [], [], ''Select a directory.'')
         else if \<not> os_path_isdir os (disk s) directory
         then (False, [], [], ''Directory does not exist: '' @ directory)
         else
           let ext = normalize_ext os (ext_var s)
           in if ext = [] then (False, [], [], ''Enter a file extension (e.g., jpg or .jpg).'')
              else
                let pattern = (if str_strip os (pattern_var s) = [] then DEFAULT_PATTERN
                               else str_strip os (pattern_var s))
                in (case datetime_strftime os (datetime_now os (disk s)) pattern of
                      Inl e \<Rightarrow> (False, [], [], ''Invalid strftime pattern: '' @ e)
                    | Inr _ \<Rightarrow> (True, directory, ext, pattern)))"

text \<open>
  \<^verbatim>\<open>_collect_targets\<close> is a generator over the generator of \<^verbatim>\<open>iter_files\<close>: a
  \<^verbatim>\<open>next\<close> on it reads paths until one passes the two tests.
\<close>

partial_function (option) collect_targets_next ::
  "('fs, 'ts, 'dt, 'it) os \<Rightarrow> 'fs \<Rightarrow> string \<Rightarrow> 'it files_gen \<Rightarrow> 'it files_gen step option" where
  "collect_targets_next os fs ext g =
     (case iter_files_next os fs g of
        None \<Rightarrow> None
      | Some Stop \<Rightarrow> Some Stop
      | Some (Throw e) \<Rightarrow> Some (Throw e)
      | Some (Yield path g') \<Rightarrow>
          if \<not> os_path_isfile os fs path then collect_targets_next os fs ext g'
          else if str_lower os (snd (path_splitext path)) = ext then Some (Yield path g')
          else collect_targets_next os fs ext g')"

declare collect_targets_next.simps [code]

subsection \<open>Preview\<close>

partial_function (option) preview_loop ::
  "('fs, 'ts, 'dt, 'it) os \<Rightarrow> string \<Rightarrow> string \<Rightarrow> 'fs app \<Rightarrow> nat \<Rightarrow> 'it files_gen
     \<Rightarrow> ('fs app \<times> nat) outcome option" where
  "preview_loop os pattern ext s preview_count g =
     (case collect_targets_next os (disk s) ext g of
        None \<Rightarrow> None
      | Some Stop \<Rightarrow> Some (Returned (s, preview_count))
      | Some (Throw e) \<Rightarrow> Some (Raised e (s, preview_count))
      | Some (Yield path g') \<Rightarrow>
          (case get_modification_prefix os (disk s) path pattern of
             Inl e \<Rightarrow> Some (Raised e (s, preview_count))
           | Inr prefix \<Rightarrow>
               if skip_already_prefixed_var s
                  \<and> should_skip_already_prefixed (snd (path_split path)) prefix
               then preview_loop os pattern ext s preview_count g'
               else (case ensure_unique_path os (disk s) (build_prefixed_name path prefix) of
                       None \<Rightarrow> None
                     | Some unique_path \<Rightarrow>
                         if preview_count + 1 \<ge> 10
                         then Some (Returned
                                (log_msg s (snd (path_split path) @ '' -> ''
                                   @ path_basename unique_path
                                   @ (if unique_path \<noteq> build_prefixed_name path prefix
                                      then '' (collision -> will use unique name)'' else [])),
                                 preview_count + 1))
                         else preview_loop os pattern ext
                                (log_msg s (snd (path_split path) @ '' -> ''
                                   @ path_basename unique_path
                                   @ (if unique_path \<noteq> build_prefixed_name path prefix
                                      then '' (collision -> will use unique name)'' else [])))
                                (preview_count + 1) g')))"

declare preview_loop.simps [code]

definition on_preview ::
  "('fs, 'ts, 'dt, 'it) os \<Rightarrow> 'fs app \<Rightarrow> 'fs app outcome option" where
  "on_preview os s =
     (case validate_inputs os s of
        (False, directory, ext, pattern) \<Rightarrow> Some (Returned (showerror (log_msg s pattern) pattern))
      | (True, directory, ext, pattern) \<Rightarrow>
          (case preview_loop os pattern ext
                  (log_msg s (''Preview (first 10) for directory='' @ directory
                     @ '', ext='' @ ext @ '', pattern='' @ [CHR 0x27] @ pattern @ [CHR 0x27]
                     @ '', recursive='' @ str_bool (recursive_var s)))
                  0 (Fresh directory (recursive_var s)) of
             None \<Rightarrow> None
           | Some (Raised e (s2, preview_count)) \<Rightarrow> Some (Raised e s2)
           | Some (Returned (s2, preview_count)) \<Rightarrow>
               Some (Returned (if preview_count = 0
                               then log_msg s2 ''No matching files found for preview.''
                               else s2))))"

subsection \<open>Rename\<close>

text \<open>
  The loop of \<^verbatim>\<open>_on_rename\<close> carries the state and its three counters.  The body
  of its \<^verbatim>\<open>try\<close> is \<open>rename_one\<close>: every exception raised there is caught, logged
  and counted by \<open>caught\<close>.  The \<^verbatim>\<open>next\<close> of the generator stands outside the
  \<^verbatim>\<open>try\<close>.
\<close>

record 'fs tally =
  app_of :: "'fs app"
  count :: nat
  skipped :: nat
  errors :: nat

definition caught :: "'fs tally \<Rightarrow> string \<Rightarrow> string \<Rightarrow> 'fs tally" where
  "caught t path e =
     t\<lparr>app_of := log_msg (app_of t) (''ERROR: '' @ path @ '': '' @ e), errors := errors t + 1\<rparr>"

definition rename_one ::
  "('fs, 'ts, 'dt, 'it) os \<Rightarrow> string \<Rightarrow> 'fs tally \<Rightarrow> string \<Rightarrow> 'fs tally option" where
  "rename_one os pattern t path =
     (let s = app_of t; filename = snd (path_split path)
      in case get_modification_prefix os (disk s) path pattern of
           Inl e \<Rightarrow> Some (caught t path e)
         | Inr prefix \<Rightarrow>
             if skip_already_prefixed_var s \<and> should_skip_already_prefixed filename prefix
             then Some (t\<lparr>skipped := skipped t + 1\<rparr>)
             else (case ensure_unique_path os (disk s) (build_prefixed_name path prefix) of
                     None \<Rightarrow> None
                   | Some target \<Rightarrow>
                       (case os_path_abspath os (disk s) path of
                          Inl e \<Rightarrow> Some (caught t path e)
                        | Inr abs_path \<Rightarrow>
                            (case os_path_abspath os (disk s) target of
                               Inl e \<Rightarrow> Some (caught t path e)
                             | Inr abs_target \<Rightarrow>
                                 if abs_path = abs_target
                                 then Some (t\<lparr>skipped := skipped t + 1\<rparr>)
                                 else (case os_rename os (disk s) path target of
                                         Inl e \<Rightarrow> Some (caught t path e)
                                       | Inr fs' \<Rightarrow>
                                           Some (t\<lparr>app_of := log_msg (s\<lparr>disk := fs'\<rparr>)
                                                     (''RENAMED: '' @ filename @ '' -> ''
                                                        @ path_basename target),
                                                   count := count t + 1\<rparr>))))))"

partial_function (option) rename_loop ::
  "('fs, 'ts, 'dt, 'it) os \<Rightarrow> string \<Rightarrow> string \<Rightarrow> 'fs tally \<Rightarrow> 'it files_gen
     \<Rightarrow> 'fs tally outcome option" where
  "rename_loop os pattern ext t g =
     (case collect_targets_next os (disk (app_of t)) ext g of
        None \<Rightarrow> None
      | Some Stop \<Rightarrow> Some (Returned t)
      | Some (Throw e) \<Rightarrow> Some (Raised e t)
      | Some (Yield path g') \<Rightarrow>
          (case rename_one os pattern t path of
             None \<Rightarrow> None
           | Some t' \<Rightarrow> rename_loop os pattern ext t' g'))"

declare rename_loop.simps [code]

definition on_rename ::
  "('fs, 'ts, 'dt, 'it) os \<Rightarrow> 'fs app \<Rightarrow> 'fs app outcome option" where
  "on_rename os s =
     (case validate_inputs os s of
        (False, directory, ext, pattern) \<Rightarrow> Some (Returned (showerror (log_msg s pattern) pattern))
      | (True, directory, ext, pattern) \<Rightarrow>
          (case rename_loop os pattern ext
                  \<lparr>app_of = log_msg s (''Starting rename in '' @ directory
                       @ '' (recursive='' @ str_bool (recursive_var s) @ '') for extension ''
                       @ ext @ '' with pattern '' @ [CHR 0x27] @ pattern @ [CHR 0x27]),
                   count = 0, skipped = 0, errors = 0\<rparr>
                  (Fresh directory (recursive_var s)) of
             None \<Rightarrow> None
           | Some (Raised e t) \<Rightarrow> Some (Raised e (app_of t))
           | Some (Returned t) \<Rightarrow>
               Some (Returned (log_msg (app_of t)
                                 (''Done. Renamed: '' @ str_nat (count t)
                                    @ '', Skipped: '' @ str_nat (skipped t)
                                    @ '', Errors: '' @ str_nat (errors t))))))"

section \<open>An example environment\<close>

text \<open>
  The examples run on one platform.  Its strings are ASCII: \<open>ascii_lower\<close> maps the
  letters A to Z and \<open>ascii_strip\<close> removes the ASCII white space.  Its clock stands
  still, knows the years up to 9999, and its \<^verbatim>\<open>strftime\<close> knows the directives
  \<open>%Y %m %d %H %M %S %%\<close> and rejects every other one; time stamps are local
  date-times already.  Its file system is a single directory \<open>pics\<close> of regular files,
  each with its modification time, and no subdirectory.  A path names a file of that
  directory in the one spelling \<open>pics/name\<close>; renaming into a directory that does not
  exist fails, and renaming onto an existing file replaces it.  A scan reads the names
  of the directory when it is opened.
\<close>

definition ascii_isspace :: "char \<Rightarrow> bool" where
  "ascii_isspace c = (c \<in> set [CHR 0x09, CHR 0x0A, CHR 0x0B, CHR 0x0C, CHR 0x0D,
                           CHR 0x1C, CHR 0x1D, CHR 0x1E, CHR 0x1F, CHR 0x20])"

definition ascii_strip :: "string \<Rightarrow> string" where
  "ascii_strip s = rev (dropWhile ascii_isspace (rev (dropWhile ascii_isspace s)))"

definition ascii_lower_char :: "char \<Rightarrow> char" where
  "ascii_lower_char c =
     (case map_of (zip ''ABCDEFGHIJKLMNOPQRSTUVWXYZ'' ''abcdefghijklmnopqrstuvwxyz'') c of
        Some l \<Rightarrow> l
      | None \<Rightarrow> c)"

definition ascii_lower :: "string \<Rightarrow> string" where
  "ascii_lower s = map ascii_lower_char s"

record datetime =
  dt_year :: nat
  dt_month :: nat
  dt_day :: nat
  dt_hour :: nat
  dt_minute :: nat
  dt_second :: nat

definition pad2 :: "nat \<Rightarrow> string" where
  "pad2 n = (if n < 10 then ''0'' @ str_nat n else str_nat n)"

definition directive :: "datetime \<Rightarrow> char \<Rightarrow> string option" where
  "directive dt c =
     (if c = CHR ''Y'' then Some (str_nat (dt_year dt))
      else if c = CHR ''m'' then Some (pad2 (dt_month dt))
      else if c = CHR ''d'' then Some (pad2 (dt_day dt))
      else if c = CHR ''H'' then Some (pad2 (dt_hour dt))
      else if c = CHR ''M'' then Some (pad2 (dt_minute dt))
      else if c = CHR ''S'' then Some (pad2 (dt_second dt))
      else if c = CHR ''%'' then Some ''%''
      else None)"

fun strftime :: "datetime \<Rightarrow> string \<Rightarrow> string + string" where
  "strftime dt [] = Inr []"
| "strftime dt [c] = (if c = CHR ''%'' then Inl ''Invalid format string'' else Inr [c])"
| "strftime dt (c # d # rest) =
     (if c = CHR ''%''
      then (case directive dt d of
              None \<Rightarrow> Inl ''Invalid format string''
            | Some s \<Rightarrow> (case strftime dt rest of Inl e \<Rightarrow> Inl e | Inr r \<Rightarrow> Inr (s @ r)))
      else (case strftime dt (d # rest) of Inl e \<Rightarrow> Inl e | Inr r \<Rightarrow> Inr (c # r)))"

type_synonym folder = "(string \<times> datetime) list"

definition pics_file :: "string \<Rightarrow> string option" where
  "pics_file p =
     (if startswith p ''pics/'' \<and> drop 5 p \<noteq> [] \<and> sep \<notin> set (drop 5 p)
      then Some (drop 5 p) else None)"

definition enoent :: string where
  "enoent = ''[Errno 2] No such file or directory''"

definition pics_rename :: "folder \<Rightarrow> string \<Rightarrow> string \<Rightarrow> string + folder" where
  "pics_rename fs src dst =
     (case pics_file src of
        None \<Rightarrow> Inl enoent
      | Some n \<Rightarrow>
          if n \<notin> set (map fst fs) then Inl enoent
          else (case pics_file dst of
                  None \<Rightarrow> Inl enoent
                | Some n' \<Rightarrow>
                    if n' = n then Inr fs
                    else Inr (map (\<lambda>(m, t). if m = n then (n', t) else (m, t))
                                  (filter (\<lambda>(m, t). m \<noteq> n') fs))))"

datatype pics_iter = Names "string list" | WalkAt string | WalkDone

definition pics_os :: "(folder, datetime, datetime, pics_iter) os" where
  "pics_os =
     \<lparr>str_lower = ascii_lower,
      str_strip = ascii_strip,
      os_path_exists = (\<lambda>fs p. p = ''pics'' \<or>
          (case pics_file p of Some n \<Rightarrow> n \<in> set (map fst fs) | None \<Rightarrow> False)),
      os_path_isfile = (\<lambda>fs p.
          (case pics_file p of Some n \<Rightarrow> n \<in> set (map fst fs) | None \<Rightarrow> False)),
      os_path_isdir = (\<lambda>fs p. p = ''pics''),
      os_path_getmtime = (\<lambda>fs p.
          (case pics_file p of
             Some n \<Rightarrow> (case map_of fs n of Some t \<Rightarrow> Mtime t | None \<Rightarrow> OSError)
           | None \<Rightarrow> OSError)),
      os_getcwd = (\<lambda>fs. Inr ''/home/user''),
      os_walk = WalkAt,
      os_walk_next = (\<lambda>fs w.
          (case w of
             WalkAt d \<Rightarrow> if d = ''pics'' then WalkTriple d [] (map fst fs) WalkDone else WalkStop
           | _ \<Rightarrow> WalkStop)),
      os_scandir = (\<lambda>fs d. if d = ''pics'' then Inr (Names (map fst fs)) else Inl enoent),
      os_scandir_next = (\<lambda>fs it.
          (case it of
             Names (n # ns) \<Rightarrow> ScanEntry (DirEntry n (path_join ''pics'' n)) (Names ns)
           | _ \<Rightarrow> ScanStop)),
      os_entry_is_file = (\<lambda>fs entry. Inr (entry_name entry \<in> set (map fst fs))),
      os_rename = pics_rename,
      datetime_now = (\<lambda>fs. \<lparr>dt_year = 2025, dt_month = 1, dt_day = 1,
                             dt_hour = 0, dt_minute = 0, dt_second = 0\<rparr>),
      datetime_timestamp = (\<lambda>dt. dt),
      datetime_fromtimestamp = (\<lambda>ts.
          if dt_year ts > 9999
          then Inl (''year '' @ str_nat (dt_year ts) @ '' is out of range'')
          else Inr ts),
      datetime_strftime = strftime\<rparr>"

text \<open>The same platform with a directory \<open>pics\<close> that may not be read.\<close>

definition locked_os :: "(folder, datetime, datetime, pics_iter) os" where
  "locked_os = pics_os\<lparr>os_scandir := (\<lambda>fs d. Inl ''[Errno 13] Permission denied'')\<rparr>"

definition march5 :: datetime where
  "march5 = \<lparr>dt_year = 2024, dt_month = 3, dt_day = 5,
              dt_hour = 14, dt_minute = 30, dt_second = 0\<rparr>"

text \<open>The path with number \<open>i\<close> that \<^verbatim>\<open>ensure_unique_path\<close> builds for a target.\<close>

definition numbered :: "string \<Rightarrow> nat \<Rightarrow> string" where
  "numbered target_path i =
     (let (directory, filename) = path_split target_path;
          (stem, ext) = path_splitext filename
      in path_join directory (stem @ ''-'' @ str_nat i @ ext))"

section \<open>Notions used to state the claims\<close>

text \<open>
  The state a handler leaves, whether it returned or raised.  The test of the loops
  that the prefix of a candidate is computed and the candidate is not skipped as
  already prefixed, and the line that the preview logs for it.
\<close>

definition state_of :: "'a outcome \<Rightarrow> 'a" where
  "state_of r = (case r of Returned s \<Rightarrow> s | Raised e s \<Rightarrow> s)"

definition qualifies ::
  "('fs, 'ts, 'dt, 'it) os \<Rightarrow> 'fs app \<Rightarrow> string \<Rightarrow> string \<Rightarrow> bool" where
  "qualifies os s pattern path =
     (case get_modification_prefix os (disk s) path pattern of
        Inl e \<Rightarrow> False
      | Inr prefix \<Rightarrow>
          \<not> (skip_already_prefixed_var s
             \<and> should_skip_already_prefixed (snd (path_split path)) prefix))"

definition preview_entry ::
  "('fs, 'ts, 'dt, 'it) os \<Rightarrow> 'fs app \<Rightarrow> string \<Rightarrow> string \<Rightarrow> string option" where
  "preview_entry os s pattern path =
     (case get_modification_prefix os (disk s) path pattern of
        Inl e \<Rightarrow> None
      | Inr prefix \<Rightarrow>
          (case ensure_unique_path os (disk s) (build_prefixed_name path prefix) of
             None \<Rightarrow> None
           | Some unique_path \<Rightarrow>
               Some (snd (path_split path) @ '' -> '' @ path_basename unique_path
                       @ (if unique_path \<noteq> build_prefixed_name path prefix
                          then '' (collision -> will use unique name)'' else []))))"

text \<open>
  What a generator gives while the machine stands still: \<open>files_yield os fs g paths\<close>
  says that \<^verbatim>\<open>iter_files\<close>, read from \<open>g\<close> on in the state \<open>fs\<close>, yields
  \<open>paths\<close> in this order and then stops, and \<open>yields os fs ext g paths\<close> says the same
  of \<^verbatim>\<open>_collect_targets\<close>.
\<close>

fun files_yield ::
  "('fs, 'ts, 'dt, 'it) os \<Rightarrow> 'fs \<Rightarrow> 'it files_gen \<Rightarrow> string list \<Rightarrow> bool" where
  "files_yield os fs g [] = (iter_files_next os fs g = Some Stop)"
| "files_yield os fs g (p # ps) =
     (case iter_files_next os fs g of
        Some (Yield q g') \<Rightarrow> q = p \<and> files_yield os fs g' ps
      | _ \<Rightarrow> False)"

fun yields ::
  "('fs, 'ts, 'dt, 'it) os \<Rightarrow> 'fs \<Rightarrow> string \<Rightarrow> 'it files_gen \<Rightarrow> string list \<Rightarrow> bool" where
  "yields os fs ext g [] = (collect_targets_next os fs ext g = Some Stop)"
| "yields os fs ext g (p # ps) =
     (case collect_targets_next os fs ext g of
        Some (Yield q g') \<Rightarrow> q = p \<and> yields os fs ext g' ps
      | _ \<Rightarrow> False)"

text \<open>
  While files are renamed the machine does not stand still.  \<open>ends os ext g\<close> says that
  the enumeration read from \<open>g\<close> on comes to its end without an exception whatever the
  state of the machine is at each \<^verbatim>\<open>next\<close>: every \<^verbatim>\<open>next\<close> returns, none
  raises, and after finitely many candidates the generator stops.
\<close>

inductive ends :: "('fs, 'ts, 'dt, 'it) os \<Rightarrow> string \<Rightarrow> 'it files_gen \<Rightarrow> bool"
  for os :: "('fs, 'ts, 'dt, 'it) os" and ext :: string where
  ends_step:
    "(\<And>fs. \<exists>st. collect_targets_next os fs ext g = Some st
                \<and> (\<forall>e. st \<noteq> Throw e)
                \<and> (\<forall>p g'. st = Yield p g' \<longrightarrow> ends os ext g'))
     \<Longrightarrow> ends os ext g"

text \<open>
  Every directory holds finitely many names at every moment; this is what makes the
  loop of \<^verbatim>\<open>ensure_unique_path\<close> end.
\<close>

definition finite_dirs :: "('fs, 'ts, 'dt, 'it) os \<Rightarrow> bool" where
  "finite_dirs os =
     (\<forall>fs directory.
        finite {n. CHR ''/'' \<notin> set n \<and> os_path_exists os fs (path_join directory n)})"

text \<open>States of the example directory with the form filled in.\<close>

definition pics_app :: "string \<Rightarrow> bool \<Rightarrow> bool \<Rightarrow> folder \<Rightarrow> folder app" where
  "pics_app pattern recursive skip files =
     \<lparr>dir_var = ''pics'', ext_var = ''jpg'', pattern_var = pattern,
      recursive_var = recursive, skip_already_prefixed_var = skip,
      log = [], shown_errors = [], disk = files\<rparr>"

definition fifteen :: folder where
  "fifteen = map (\<lambda>n. (''img'' @ str_nat n @ ''.jpg'', march5)) [1..<16]"

section \<open>Lemmas\<close>

subsection \<open>Facts about strings and paths\<close>

lemma startswith_iff: "startswith s p \<longleftrightarrow> (\<exists>r. s = p @ r)"
proof
  assume "startswith s p"
  then have "s = p @ drop (length p) s"
    unfolding startswith_def by (metis append_take_drop_id)
  then show "\<exists>r. s = p @ r" ..
next
  assume "\<exists>r. s = p @ r"
  then show "startswith s p"
    unfolding startswith_def by auto
qed

lemma endswith_iff: "endswith s p \<longleftrightarrow> (\<exists>r. s = r @ p)"
proof
  assume "endswith s p"
  then have "s = take (length s - length p) s @ p"
    unfolding endswith_def by (metis append_take_drop_id)
  then show "\<exists>r. s = r @ p" ..
next
  assume "\<exists>r. s = r @ p"
  then show "endswith s p"
    unfolding endswith_def by auto
qed

lemma basename_no_sep: "sep \<notin> set (path_basename p)"
  unfolding path_basename_def using set_takeWhileD[of sep "\<lambda>c. c \<noteq> sep" "rev p"] by auto

lemma head_basename: "path_head p @ path_basename p = p"
proof -
  have "rev (takeWhile (\<lambda>c. c \<noteq> sep) (rev p) @ dropWhile (\<lambda>c. c \<noteq> sep) (rev p)) = p"
    by simp
  then show ?thesis
    unfolding path_head_def path_basename_def by (simp del: takeWhile_dropWhile_id)
qed

lemma head_ends_sep: 
  assumes "path_head p \<noteq> []" shows "last (path_head p) = sep"
proof -
  let ?d = "dropWhile (\<lambda>c. c \<noteq> sep) (rev p)"
  from assms have d: "?d \<noteq> []"
    unfolding path_head_def by simp
  have "\<not> (hd ?d \<noteq> sep)" using d by (rule hd_dropWhile)
  with d show ?thesis
    unfolding path_head_def by (simp add: last_rev)
qed

lemma takeWhile_no_sep: "sep \<notin> set n \<Longrightarrow> takeWhile (\<lambda>c. c \<noteq> sep) (rev n) = rev n"
  by (rule takeWhile_eq_all_conv[THEN iffD2]) auto

lemma dropWhile_no_sep: "sep \<notin> set n \<Longrightarrow> dropWhile (\<lambda>c. c \<noteq> sep) (rev n) = []"
  by (rule dropWhile_eq_Nil_conv[THEN iffD2]) auto

lemma basename_append_no_sep: "sep \<notin> set n \<Longrightarrow> path_basename (h @ sep # n) = n"
proof -
  assume n: "sep \<notin> set n"
  have "takeWhile (\<lambda>c. c \<noteq> sep) (rev n @ sep # rev h) = rev n"
    using n by (subst takeWhile_append2) auto
  then show ?thesis
    unfolding path_basename_def by simp
qed

lemma head_append_no_sep: "sep \<notin> set n \<Longrightarrow> path_head (h @ sep # n) = h @ [sep]"
proof -
  assume n: "sep \<notin> set n"
  have "dropWhile (\<lambda>c. c \<noteq> sep) (rev n @ sep # rev h) = sep # rev h"
    using n by (subst dropWhile_append2) auto
  then show ?thesis
    unfolding path_head_def by simp
qed

lemma basename_of_no_sep: "sep \<notin> set n \<Longrightarrow> path_basename n = n"
  unfolding path_basename_def by (simp add: takeWhile_no_sep)

lemma head_of_no_sep: "sep \<notin> set n \<Longrightarrow> path_head n = []"
  unfolding path_head_def by (simp add: dropWhile_no_sep)

lemma path_split_eq:
  "path_split q =
     (if path_head q \<noteq> [] \<and> path_head q \<noteq> replicate (length (path_head q)) sep
      then rstrip_sep (path_head q) else path_head q, path_basename q)"
  by (simp add: path_split_def Let_def)

lemma not_startswith_sep: "sep \<notin> set n \<Longrightarrow> \<not> startswith n [sep]"
  unfolding startswith_iff by auto

lemma split_join_empty:
  assumes "sep \<notin> set n"
  shows "path_split (path_join [] n) = ([], n)"
proof -
  have "path_join [] n = n"
    using not_startswith_sep[OF assms] unfolding path_join_def by simp
  then show ?thesis
    using assms by (simp add: path_split_eq head_of_no_sep basename_of_no_sep)
qed

lemma split_join_slashes:
  assumes "sep \<notin> set n"
  shows "path_split (path_join (replicate (Suc k) sep) n) = (replicate (Suc k) sep, n)"
proof -
  have r: "replicate (Suc k) sep = replicate k sep @ [sep]"
    by (simp add: replicate_append_same)
  then have "endswith (replicate (Suc k) sep) [sep]"
    unfolding endswith_iff by blast
  then have j: "path_join (replicate (Suc k) sep) n = replicate k sep @ sep # n"
    using not_startswith_sep[OF assms] r unfolding path_join_def by simp
  have "path_head (replicate k sep @ sep # n) = replicate (Suc k) sep"
    using assms r by (simp add: head_append_no_sep)
  moreover have "path_basename (replicate k sep @ sep # n) = n"
    using assms by (simp add: basename_append_no_sep)
  ultimately have "path_split (replicate k sep @ sep # n) = (replicate (Suc k) sep, n)"
    by (simp add: path_split_eq)
  then show ?thesis
    using j by simp
qed

lemma split_join_proper:
  assumes n: "sep \<notin> set n" and dn: "d \<noteq> []" and lastd: "last d \<noteq> sep"
  shows "path_split (path_join d n) = (d, n)"
proof -
  have "\<not> endswith d [sep]"
  proof
    assume "endswith d [sep]"
    then obtain r where "d = r @ [sep]"
      unfolding endswith_iff by blast
    then have "last d = sep"
      by simp
    with lastd show False by simp
  qed
  then have j: "path_join d n = d @ sep # n"
    using not_startswith_sep[OF n] dn unfolding path_join_def by simp
  have hd': "path_head (d @ sep # n) = d @ [sep]"
    using n by (rule head_append_no_sep)
  have bn: "path_basename (d @ sep # n) = n"
    using n by (rule basename_append_no_sep)
  have notall: "d @ [sep] \<noteq> replicate (length (d @ [sep])) sep"
  proof
    assume "d @ [sep] = replicate (length (d @ [sep])) sep"
    then obtain m where m: "d @ [sep] = replicate m sep"
      by blast
    have "last d \<in> set (d @ [sep])"
      using dn by simp
    then have "last d \<in> set (replicate m sep)"
      by (simp only: m)
    then have "last d = sep"
      by simp
    with lastd show False by simp
  qed
  have "hd (rev d) \<noteq> sep"
    using dn lastd by (simp add: hd_rev)
  then have "dropWhile (\<lambda>c. c = sep) (rev d) = rev d"
    using dn by (cases "rev d") auto
  then have "rstrip_sep (d @ [sep]) = d"
    unfolding rstrip_sep_def by simp
  then have "path_split (d @ sep # n) = (d, n)"
    using hd' bn notall by (simp add: path_split_eq)
  then show ?thesis
    using j by simp
qed

lemma split_dir_form:
  "fst (path_split p) = [] \<or> (\<exists>k. fst (path_split p) = replicate (Suc k) sep)
   \<or> (fst (path_split p) \<noteq> [] \<and> last (fst (path_split p)) \<noteq> sep)"
proof -
  let ?h = "path_head p"
  consider (empty) "?h = []" | (slashes) "?h \<noteq> []" "?h = replicate (length ?h) sep"
    | (proper) "?h \<noteq> []" "?h \<noteq> replicate (length ?h) sep"
    by blast
  then show ?thesis
  proof cases
    case empty
    then show ?thesis
      by (simp add: path_split_eq)
  next
    case slashes
    obtain k where "length ?h = Suc k"
      using slashes by (cases "length ?h") auto
    then have "?h = replicate (Suc k) sep"
      using slashes by simp
    moreover have "fst (path_split p) = ?h"
      using slashes by (simp add: path_split_eq)
    ultimately show ?thesis
      by metis
  next
    case proper
    then have d: "fst (path_split p) = rstrip_sep ?h"
      by (simp add: path_split_eq)
    have "\<exists>c \<in> set ?h. c \<noteq> sep"
    proof (rule ccontr)
      assume "\<not> (\<exists>c \<in> set ?h. c \<noteq> sep)"
      then have "?h = replicate (length ?h) sep"
        by (simp add: replicate_length_same)
      with proper show False by simp
    qed
    then have dne: "dropWhile (\<lambda>c. c = sep) (rev ?h) \<noteq> []"
      by (simp add: dropWhile_eq_Nil_conv)
    have "\<not> (hd (dropWhile (\<lambda>c. c = sep) (rev ?h)) = sep)"
      using dne by (rule hd_dropWhile)
    then have "last (rstrip_sep ?h) \<noteq> sep"
      using dne unfolding rstrip_sep_def by (simp add: last_rev)
    moreover have "rstrip_sep ?h \<noteq> []"
      using dne unfolding rstrip_sep_def by simp
    ultimately show ?thesis
      using d by simp
  qed
qed

lemma split_join:
  assumes n: "sep \<notin> set n"
  shows "path_split (path_join (fst (path_split p)) n) = (fst (path_split p), n)"
  using split_dir_form[of p] split_join_empty[OF n] split_join_slashes[OF n]
    split_join_proper[OF n] by metis

subsection \<open>Decimal numbers and the probing loop\<close>

lemma d10: "distinct ''0123456789''"
  by simp

lemma digit_char_inj: "a < 10 \<Longrightarrow> b < 10 \<Longrightarrow> digit_char a = digit_char b \<Longrightarrow> a = b"
proof -
  assume a: "a < 10" and b: "b < 10" and e: "digit_char a = digit_char b"
  have la: "a < length ''0123456789''" and lb: "b < length ''0123456789''"
    using a b by simp_all
  have "''0123456789'' ! a = ''0123456789'' ! b"
    using e unfolding digit_char_def .
  then show "a = b"
    using nth_eq_iff_index_eq[OF d10 la lb] by blast
qed

lemma digit_char_in: "a < 10 \<Longrightarrow> digit_char a \<in> set ''0123456789''"
  unfolding digit_char_def by (rule nth_mem) simp

lemma str_nat_small: "n < 10 \<Longrightarrow> str_nat n = [digit_char n]"
  by (subst str_nat.simps) simp

lemma str_nat_large: "\<not> n < 10 \<Longrightarrow> str_nat n = str_nat (n div 10) @ [digit_char (n mod 10)]"
  by (subst str_nat.simps) simp

lemma str_nat_nonempty: "str_nat n \<noteq> []"
proof (cases "n < 10")
  case True
  then show ?thesis using str_nat_small[of n] by simp
next
  case False
  then show ?thesis using str_nat_large[of n] by simp
qed

lemma str_nat_digits: "set (str_nat n) \<subseteq> set ''0123456789''"
proof (induction n rule: str_nat.induct)
  case (1 n)
  show ?case
  proof (cases "n < 10")
    case True
    then have "str_nat n = [digit_char n]"
      by (rule str_nat_small)
    then show ?thesis
      using digit_char_in[OF True] by simp
  next
    case False
    have "n mod 10 < 10"
      by simp
    then have "digit_char (n mod 10) \<in> set ''0123456789''"
      by (rule digit_char_in)
    moreover have "set (str_nat (n div 10)) \<subseteq> set ''0123456789''"
      using 1 False by simp
    moreover have "str_nat n = str_nat (n div 10) @ [digit_char (n mod 10)]"
      using False by (rule str_nat_large)
    ultimately show ?thesis
      by simp
  qed
qed

lemma str_nat_no_sep: "sep \<notin> set (str_nat n)"
  using str_nat_digits[of n] unfolding sep_def by auto

lemma str_nat_inj: "str_nat m = str_nat n \<Longrightarrow> m = n"
proof (induction m arbitrary: n rule: str_nat.induct)
  case (1 m)
  show ?case
  proof (cases "m < 10")
    case msmall: True
    show ?thesis
    proof (cases "n < 10")
      case True
      then show ?thesis
        using msmall "1.prems" str_nat_small[OF msmall] str_nat_small[OF True]
        by (simp add: digit_char_inj)
    next
      case False
      then have "str_nat n = str_nat (n div 10) @ [digit_char (n mod 10)]"
        by (rule str_nat_large)
      then have "length (str_nat n) = Suc (length (str_nat (n div 10)))"
        by simp
      then have "length (str_nat n) \<ge> 2"
        using str_nat_nonempty[of "n div 10"] by (cases "str_nat (n div 10)") simp_all
      moreover have "length (str_nat m) = 1"
        using str_nat_small[OF msmall] by simp
      ultimately show ?thesis
        using "1.prems" by simp
    qed
  next
    case mlarge: False
    show ?thesis
    proof (cases "n < 10")
      case True
      then have "length (str_nat n) = 1"
        using str_nat_small[of n] by simp
      moreover have "length (str_nat m) = Suc (length (str_nat (m div 10)))"
        using str_nat_large[OF mlarge] by simp
      then have "length (str_nat m) \<ge> 2"
        using str_nat_nonempty[of "m div 10"] by (cases "str_nat (m div 10)") simp_all
      ultimately show ?thesis
        using "1.prems" by simp
    next
      case False
      then have e: "str_nat (m div 10) @ [digit_char (m mod 10)]
                    = str_nat (n div 10) @ [digit_char (n mod 10)]"
        using "1.prems" str_nat_large[OF mlarge] str_nat_large[OF False] by simp
      then have "str_nat (m div 10) = str_nat (n div 10)"
        by simp
      then have q: "m div 10 = n div 10"
        using "1.IH" mlarge by simp
      have "digit_char (m mod 10) = digit_char (n mod 10)"
        using e by simp
      then have r: "m mod 10 = n mod 10"
        by (intro digit_char_inj) simp_all
      show ?thesis
        using q r by (metis div_mult_mod_eq)
    qed
  qed
qed

text \<open>The i-th name that the loop of ensure_unique_path probes.\<close>

lemma probe_unique_first:
  "probe_unique ex d stem ext i = Some r \<Longrightarrow>
   (\<exists>k\<ge>i. r = path_join d (stem @ ''-'' @ str_nat k @ ext)
            \<and> \<not> ex (path_join d (stem @ ''-'' @ str_nat k @ ext))
            \<and> (\<forall>j. i \<le> j \<and> j < k \<longrightarrow> ex (path_join d (stem @ ''-'' @ str_nat j @ ext))))"
proof (rule probe_unique.raw_induct[where P = "\<lambda>ex d stem ext i r. (\<exists>k\<ge>i. r = path_join d (stem @ ''-'' @ str_nat k @ ext)
            \<and> \<not> ex (path_join d (stem @ ''-'' @ str_nat k @ ext))
            \<and> (\<forall>j. i \<le> j \<and> j < k \<longrightarrow> ex (path_join d (stem @ ''-'' @ str_nat j @ ext))))"])
  show "probe_unique ex d stem ext i = Some r \<Longrightarrow> probe_unique ex d stem ext i = Some r" .
next
  fix probe :: "(string \<Rightarrow> bool) \<Rightarrow> string \<Rightarrow> string \<Rightarrow> string \<Rightarrow> nat \<Rightarrow> string option"
  fix ex d stem ext i r
  assume IH: "\<And>ex d stem ext i r. probe ex d stem ext i = Some r \<Longrightarrow> (\<exists>k\<ge>i. r = path_join d (stem @ ''-'' @ str_nat k @ ext)
            \<and> \<not> ex (path_join d (stem @ ''-'' @ str_nat k @ ext))
            \<and> (\<forall>j. i \<le> j \<and> j < k \<longrightarrow> ex (path_join d (stem @ ''-'' @ str_nat j @ ext))))"
  assume body: "(if \<not> ex (path_join d (stem @ ''-'' @ str_nat i @ ext))
      then Some (path_join d (stem @ ''-'' @ str_nat i @ ext))
      else probe ex d stem ext (i + 1)) = Some r"
  show "\<exists>k\<ge>i. r = path_join d (stem @ ''-'' @ str_nat k @ ext) \<and>
                  \<not> ex (path_join d (stem @ ''-'' @ str_nat k @ ext)) \<and>
                  (\<forall>j. i \<le> j \<and> j < k \<longrightarrow> ex (path_join d (stem @ ''-'' @ str_nat j @ ext)))"
  proof (cases "ex (path_join d (stem @ ''-'' @ str_nat i @ ext))")
    case False
    then have "r = path_join d (stem @ ''-'' @ str_nat i @ ext)"
      using body by simp
    then show ?thesis
      using False by (intro exI[of _ i]) auto
  next
    case True
    then have "probe ex d stem ext (i + 1) = Some r"
      using body by simp
    from IH[OF this] obtain k where k1: "k \<ge> i + 1"
        and k2: "r = path_join d (stem @ ''-'' @ str_nat k @ ext)"
        and k3: "\<not> ex (path_join d (stem @ ''-'' @ str_nat k @ ext))"
        and k4: "\<forall>j. i + 1 \<le> j \<and> j < k \<longrightarrow> ex (path_join d (stem @ ''-'' @ str_nat j @ ext))"
      by blast
    have "\<forall>j. i \<le> j \<and> j < k \<longrightarrow> ex (path_join d (stem @ ''-'' @ str_nat j @ ext))"
    proof (intro allI impI)
      fix j assume j: "i \<le> j \<and> j < k"
      show "ex (path_join d (stem @ ''-'' @ str_nat j @ ext))"
      proof (cases "j = i")
        case True
        then show ?thesis using \<open>ex (path_join d (stem @ ''-'' @ str_nat i @ ext))\<close> by simp
      next
        case False
        then have "i + 1 \<le> j \<and> j < k" using j by simp
        then show ?thesis using k4 by blast
      qed
    qed
    moreover have "k \<ge> i" using k1 by simp
    ultimately show ?thesis
      using k2 k3 by (intro exI[of _ k]) auto
  qed
qed

lemma probe_unique_reaches:
  assumes "\<not> ex (path_join d (stem @ ''-'' @ str_nat k @ ext))"
    and "i \<le> k"
    and "\<forall>j. i \<le> j \<and> j < k \<longrightarrow> ex (path_join d (stem @ ''-'' @ str_nat j @ ext))"
  shows "probe_unique ex d stem ext i = Some (path_join d (stem @ ''-'' @ str_nat k @ ext))"
  using assms(2,3)
proof (induction "k - i" arbitrary: i)
  case 0
  then have "i = k" by simp
  then show ?case
    using assms(1) by (subst probe_unique.simps) simp
next
  case (Suc m)
  then have lt: "i < k" by simp
  then have "ex (path_join d (stem @ ''-'' @ str_nat i @ ext))"
    using Suc.prems by simp
  then have "probe_unique ex d stem ext i = probe_unique ex d stem ext (i + 1)"
    by (subst probe_unique.simps) simp
  moreover have "probe_unique ex d stem ext (i + 1)
                 = Some (path_join d (stem @ ''-'' @ str_nat k @ ext))"
  proof (rule Suc.hyps(1))
    show "m = k - (i + 1)" using Suc.hyps(2) by simp
    show "i + 1 \<le> k" using lt by simp
    show "\<forall>j. i + 1 \<le> j \<and> j < k \<longrightarrow> ex (path_join d (stem @ ''-'' @ str_nat j @ ext))"
      using Suc.prems(2) by simp
  qed
  ultimately show ?case by simp
qed

lemma probe_unique_terminates:
  assumes fin: "finite {k. ex (path_join d (stem @ ''-'' @ str_nat k @ ext))}"
  shows "\<exists>r. probe_unique ex d stem ext i = Some r"
proof -
  let ?S = "{k. i \<le> k \<and> \<not> ex (path_join d (stem @ ''-'' @ str_nat k @ ext))}"
  have "\<exists>k. k \<in> ?S"
  proof (cases "{k. ex (path_join d (stem @ ''-'' @ str_nat k @ ext))} = {}")
    case True
    then have "i \<in> ?S" by auto
    then show ?thesis ..
  next
    case False
    let ?E = "{k. ex (path_join d (stem @ ''-'' @ str_nat k @ ext))}"
    define b where "b = max i (Suc (Max ?E))"
    have "b \<notin> ?E"
    proof
      assume "b \<in> ?E"
      then have "b \<le> Max ?E"
        using fin by (rule Max_ge[rotated])
      then show False
        unfolding b_def by simp
    qed
    moreover have "i \<le> b"
      unfolding b_def by simp
    ultimately have "b \<in> ?S" by simp
    then show ?thesis ..
  qed
  then obtain k0 where "k0 \<in> ?S" by blast
  define k where "k = (LEAST k. k \<in> ?S)"
  have kin: "k \<in> ?S"
    unfolding k_def using \<open>k0 \<in> ?S\<close> by (rule LeastI)
  have least: "\<And>j. j \<in> ?S \<Longrightarrow> k \<le> j"
    unfolding k_def by (rule Least_le)
  have "\<forall>j. i \<le> j \<and> j < k \<longrightarrow> ex (path_join d (stem @ ''-'' @ str_nat j @ ext))"
  proof (intro allI impI, rule ccontr)
    fix j assume j: "i \<le> j \<and> j < k" and n: "\<not> ex (path_join d (stem @ ''-'' @ str_nat j @ ext))"
    then have "j \<in> ?S" by simp
    then have "k \<le> j" by (rule least)
    with j show False by simp
  qed
  then have "probe_unique ex d stem ext i = Some (path_join d (stem @ ''-'' @ str_nat k @ ext))"
    using kin by (intro probe_unique_reaches) simp_all
  then show ?thesis ..
qed

subsection \<open>Extensions and the numbered names\<close>

lemma path_splitext_eq:
  "path_splitext p =
     (if extsep \<in> set (path_basename p)
          \<and> (\<exists>c \<in> set (rev (tl (dropWhile (\<lambda>c. c \<noteq> extsep) (rev (path_basename p))))). c \<noteq> extsep)
      then (path_head p @ rev (tl (dropWhile (\<lambda>c. c \<noteq> extsep) (rev (path_basename p)))),
            extsep # rev (takeWhile (\<lambda>c. c \<noteq> extsep) (rev (path_basename p))))
      else (p, []))"
  unfolding path_splitext_def Let_def ..

lemma last_dot_cut:
  assumes "extsep \<in> set t"
  shows "rev (tl (dropWhile (\<lambda>c. c \<noteq> extsep) (rev t))) @ extsep # rev (takeWhile (\<lambda>c. c \<noteq> extsep) (rev t)) = t"
proof -
  let ?P = "\<lambda>c. c \<noteq> extsep"
  have ne: "dropWhile ?P (rev t) \<noteq> []"
    using assms by (simp add: dropWhile_eq_Nil_conv)
  then have "\<not> ?P (hd (dropWhile ?P (rev t)))"
    by (rule hd_dropWhile)
  then obtain ds where d: "dropWhile ?P (rev t) = extsep # ds"
    using ne by (cases "dropWhile ?P (rev t)") simp_all
  have "takeWhile ?P (rev t) @ dropWhile ?P (rev t) = rev t"
    by (rule takeWhile_dropWhile_id)
  then have "takeWhile ?P (rev t) @ extsep # ds = rev t"
    by (simp only: d)
  then have "rev (takeWhile ?P (rev t) @ extsep # ds) = rev (rev t)"
    by (rule arg_cong)
  then have "rev ds @ extsep # rev (takeWhile ?P (rev t)) = t"
    by simp
  then show ?thesis
    by (simp only: d list.sel)
qed

lemma splitext_parts: "fst (path_splitext p) @ snd (path_splitext p) = p"
proof (cases "extsep \<in> set (path_basename p)
          \<and> (\<exists>c \<in> set (rev (tl (dropWhile (\<lambda>c. c \<noteq> extsep) (rev (path_basename p))))). c \<noteq> extsep)")
  case False
  then have "path_splitext p = (p, [])"
    unfolding path_splitext_eq by (rule if_not_P)
  then show ?thesis
    by simp
next
  case True
  then have e: "path_splitext p =
      (path_head p @ rev (tl (dropWhile (\<lambda>c. c \<noteq> extsep) (rev (path_basename p)))),
       extsep # rev (takeWhile (\<lambda>c. c \<noteq> extsep) (rev (path_basename p))))"
    unfolding path_splitext_eq by (rule if_P)
  have "extsep \<in> set (path_basename p)"
    using True by blast
  then have "rev (tl (dropWhile (\<lambda>c. c \<noteq> extsep) (rev (path_basename p))))
       @ extsep # rev (takeWhile (\<lambda>c. c \<noteq> extsep) (rev (path_basename p))) = path_basename p"
    by (rule last_dot_cut)
  then have "path_head p @ rev (tl (dropWhile (\<lambda>c. c \<noteq> extsep) (rev (path_basename p))))
       @ extsep # rev (takeWhile (\<lambda>c. c \<noteq> extsep) (rev (path_basename p))) = path_head p @ path_basename p"
    by (rule arg_cong)
  then show ?thesis
    by (simp only: e fst_conv snd_conv append_assoc head_basename)
qed

lemma splitext_no_sep:
  assumes "sep \<notin> set f"
  shows "sep \<notin> set (fst (path_splitext f))" and "sep \<notin> set (snd (path_splitext f))"
proof -
  have "set (fst (path_splitext f)) \<union> set (snd (path_splitext f)) = set f"
    using splitext_parts[of f] by (metis set_append)
  then show "sep \<notin> set (fst (path_splitext f))" and "sep \<notin> set (snd (path_splitext f))"
    using assms by auto
qed

lemma path_join_no_sep:
  "sep \<notin> set n \<Longrightarrow>
   path_join d n = (if d = [] \<or> endswith d [sep] then d @ n else d @ sep # n)"
  using not_startswith_sep[of n] unfolding path_join_def by simp

lemma path_join_inj:
  assumes "sep \<notin> set n" and "sep \<notin> set n'" and "path_join d n = path_join d n'"
  shows "n = n'"
  using assms by (simp add: path_join_no_sep split: if_splits)

lemma suffixed_no_sep:
  assumes "sep \<notin> set stem" and "sep \<notin> set ext"
  shows "sep \<notin> set (stem @ ''-'' @ str_nat i @ ext)"
  using assms str_nat_no_sep[of i] by (simp add: sep_def)

lemma suffixed_inj: "stem @ ''-'' @ str_nat i @ ext = stem @ ''-'' @ str_nat j @ ext \<Longrightarrow> i = j"
  by (simp add: str_nat_inj)

lemma numbered_eq:
  "numbered target i =
     path_join (fst (path_split target))
       (fst (path_splitext (snd (path_split target))) @ ''-'' @ str_nat i
          @ snd (path_splitext (snd (path_split target))))"
  unfolding numbered_def by (simp add: case_prod_beta)

lemma ensure_unique_path_eq:
  "ensure_unique_path os fs target =
     (if \<not> os_path_exists os fs target then Some target
      else probe_unique (os_path_exists os fs) (fst (path_split target))
             (fst (path_splitext (snd (path_split target))))
             (snd (path_splitext (snd (path_split target)))) 1)"
  unfolding ensure_unique_path_def by (simp add: case_prod_beta)

lemma split_snd_no_sep: "sep \<notin> set (snd (path_split p))"
  using basename_no_sep[of p] by (simp add: path_split_eq)

lemma finite_probed:
  assumes "finite {n. sep \<notin> set n \<and> ex (path_join d n)}"
    and "sep \<notin> set stem" and "sep \<notin> set ext"
  shows "finite {k. ex (path_join d (stem @ ''-'' @ str_nat k @ ext))}"
proof -
  let ?name = "\<lambda>k. stem @ ''-'' @ str_nat k @ ext"
  have "inj ?name"
    by (rule injI) (rule suffixed_inj)
  then have "finite (?name -` {n. sep \<notin> set n \<and> ex (path_join d n)})"
    using assms(1) by (intro finite_vimageI)
  moreover have "{k. ex (path_join d (?name k))} \<subseteq> ?name -` {n. sep \<notin> set n \<and> ex (path_join d n)}"
    using suffixed_no_sep[OF assms(2,3)] by auto
  ultimately show ?thesis
    by (rule rev_finite_subset)
qed

lemma ensure_unique_path_total:
  assumes "finite {n. sep \<notin> set n \<and> os_path_exists os fs (path_join (fst (path_split target)) n)}"
  shows "\<exists>r. ensure_unique_path os fs target = Some r"
proof (cases "os_path_exists os fs target")
  case False
  then show ?thesis
    by (simp add: ensure_unique_path_eq)
next
  case True
  let ?f = "snd (path_split target)"
  have "sep \<notin> set ?f"
    by (rule split_snd_no_sep)
  then have "finite {k. os_path_exists os fs (path_join (fst (path_split target))
               (fst (path_splitext ?f) @ ''-'' @ str_nat k @ snd (path_splitext ?f)))}"
    using assms by (intro finite_probed splitext_no_sep)
  then have "\<exists>r. probe_unique (os_path_exists os fs) (fst (path_split target))
               (fst (path_splitext ?f)) (snd (path_splitext ?f)) 1 = Some r"
    by (rule probe_unique_terminates)
  then show ?thesis
    using True by (simp add: ensure_unique_path_eq)
qed

lemma ensure_unique_path_first:
  assumes "ensure_unique_path os fs target = Some r"
  shows "\<not> os_path_exists os fs r
         \<and> (\<not> os_path_exists os fs target \<longrightarrow> r = target)
         \<and> (os_path_exists os fs target \<longrightarrow>
             (\<exists>i\<ge>1. r = numbered target i
                \<and> (\<forall>j. 1 \<le> j \<and> j < i \<longrightarrow> os_path_exists os fs (numbered target j))))"
proof (cases "os_path_exists os fs target")
  case False
  then show ?thesis
    using assms by (simp add: ensure_unique_path_eq)
next
  case True
  then have "probe_unique (os_path_exists os fs) (fst (path_split target))
               (fst (path_splitext (snd (path_split target))))
               (snd (path_splitext (snd (path_split target)))) 1 = Some r"
    using assms by (simp add: ensure_unique_path_eq)
  from probe_unique_first[OF this] obtain k where "k \<ge> 1" "r = numbered target k"
    "\<not> os_path_exists os fs (numbered target k)"
    "\<forall>j. 1 \<le> j \<and> j < k \<longrightarrow> os_path_exists os fs (numbered target j)"
    unfolding numbered_eq by blast
  then show ?thesis
    using True by blast
qed

lemma ensure_unique_path_reaches:
  assumes "os_path_exists os fs target"
    and "\<forall>j. 1 \<le> j \<and> j \<le> k \<longrightarrow> os_path_exists os fs (numbered target j)"
    and "\<not> os_path_exists os fs (numbered target (Suc k))"
  shows "ensure_unique_path os fs target = Some (numbered target (Suc k))"
proof -
  have "probe_unique (os_path_exists os fs) (fst (path_split target))
               (fst (path_splitext (snd (path_split target))))
               (snd (path_splitext (snd (path_split target)))) 1
        = Some (numbered target (Suc k))"
    unfolding numbered_eq
    using assms(2,3) unfolding numbered_eq by (intro probe_unique_reaches) auto
  then show ?thesis
    using assms(1) by (simp add: ensure_unique_path_eq)
qed

subsection \<open>Normalised paths\<close>

lemma str_split_no_sep: "c \<notin> set n \<Longrightarrow> str_split c n = [n]"
  by (induction n) auto

lemma str_split_last:
  assumes "c \<notin> set n"
  shows "\<exists>ps. ps \<noteq> [] \<and> str_split c (h @ c # n) = ps @ [n]"
proof (induction h)
  case Nil
  have "str_split c (c # n) = [[]] @ [n]"
    using assms by (simp add: str_split_no_sep)
  then show ?case
    by (intro exI[of _ "[[]]"]) simp
next
  case (Cons x h)
  then obtain ps where ps: "ps \<noteq> []" "str_split c (h @ c # n) = ps @ [n]"
    by blast
  then obtain p ps' where pp: "ps = p # ps'"
    by (cases ps) simp_all
  have "str_split c ((x # h) @ c # n)
        = (if x = c then [] # p # ps' @ [n] else (x # p) # ps' @ [n])"
    using ps(2) pp by simp
  then have "str_split c ((x # h) @ c # n)
        = (if x = c then [[], p] @ ps' else [x # p] @ ps') @ [n]"
    by simp
  moreover have "(if x = c then [[], p] @ ps' else [x # p] @ ps') \<noteq> []"
    by simp
  ultimately show ?case
    by (intro exI[of _ "if x = c then [[], p] @ ps' else [x # p] @ ps'"] conjI)
qed

lemma str_split_basename: "\<exists>ps. str_split sep q = ps @ [path_basename q]"
proof (cases "path_head q = []")
  case True
  then have "q = path_basename q"
    using head_basename[of q] by simp
  then have "sep \<notin> set q"
    using basename_no_sep[of q] by simp
  then have "str_split sep q = [q]"
    by (rule str_split_no_sep)
  then have "str_split sep q = [] @ [path_basename q]"
    using \<open>q = path_basename q\<close> by simp
  then show ?thesis ..
next
  case False
  then have "last (path_head q) = sep"
    by (rule head_ends_sep)
  then have "path_head q = butlast (path_head q) @ [sep]"
    using False by (metis append_butlast_last_id)
  then have "butlast (path_head q) @ sep # path_basename q = path_head q @ path_basename q"
    by (metis append.assoc append_Cons append_Nil)
  then have q: "q = butlast (path_head q) @ sep # path_basename q"
    using head_basename[of q] by simp
  obtain ps where "str_split sep (butlast (path_head q) @ sep # path_basename q)
                   = ps @ [path_basename q]"
    using str_split_last[where c = sep and n = "path_basename q" and h = "butlast (path_head q)",
        OF basename_no_sep] by blast
  then have "str_split sep q = ps @ [path_basename q]"
    using q by simp
  then show ?thesis ..
qed

lemma norm_step_proper:
  "b \<noteq> [] \<Longrightarrow> b \<noteq> ''.'' \<Longrightarrow> b \<noteq> ''..'' \<Longrightarrow> norm_step i acc b = acc @ [b]"
  unfolding norm_step_def by simp

lemma str_join_snoc:
  "str_join s (xs @ [b]) = (if xs = [] then b else str_join s xs @ s @ b)"
proof (induction s xs rule: str_join.induct)
  case (1 s)
  show ?case by simp
next
  case (2 s x)
  show ?case by simp
next
  case (3 s x y ys)
  then show ?case by simp
qed

lemma basename_after_sep: "path_basename (h @ sep # p) = path_basename p"
proof (cases "sep \<in> set p")
  case False
  then show ?thesis
    by (simp add: basename_append_no_sep basename_of_no_sep)
next
  case True
  then have "sep \<in> set (rev p)"
    by simp
  moreover have "\<not> (sep \<noteq> sep)"
    by simp
  ultimately have "takeWhile (\<lambda>c. c \<noteq> sep) (rev p @ sep # rev h) = takeWhile (\<lambda>c. c \<noteq> sep) (rev p)"
    by (rule takeWhile_append1)
  then show ?thesis
    unfolding path_basename_def by simp
qed

lemma basename_append:
  assumes "sep \<notin> set s"
  shows "path_basename (x @ s) = path_basename x @ s"
proof -
  have "takeWhile (\<lambda>c. c \<noteq> sep) (rev s @ rev x) = rev s @ takeWhile (\<lambda>c. c \<noteq> sep) (rev x)"
    using assms by (intro takeWhile_append2) auto
  then show ?thesis
    unfolding path_basename_def by simp
qed

lemma basename_slashes:
  assumes "sep \<notin> set b" 
  shows "path_basename (replicate k sep @ b) = b"
proof (cases k)
  case 0
  then show ?thesis using assms by (simp add: basename_of_no_sep)
next
  case (Suc m)
  have "replicate (Suc m) sep = replicate m sep @ [sep]"
    by (simp add: replicate_append_same)
  then have "replicate k sep @ b = replicate m sep @ sep # b"
    using Suc by simp
  then show ?thesis
    using assms by (simp add: basename_append_no_sep)
qed

lemma normpath_basename:
  assumes "path_basename q \<noteq> []" and "path_basename q \<noteq> ''.''" and "path_basename q \<noteq> ''..''"
  shows "path_basename (path_normpath q) = path_basename q"
proof -
  let ?b = "path_basename q"
  have qne: "q \<noteq> []"
    using assms(1) unfolding path_basename_def by auto
  have bs: "sep \<notin> set ?b"
    by (rule basename_no_sep)
  obtain ps where ps: "str_split sep q = ps @ [?b]"
    using str_split_basename by blast
  define k :: nat where "k = (if startswith q [sep]
               then (if startswith q [sep, sep] \<and> \<not> startswith q [sep, sep, sep]
                     then 2 else 1)
               else 0)"
  define acc where "acc = foldl (norm_step (k \<noteq> 0)) [] ps"
  have comps: "foldl (norm_step (k \<noteq> 0)) [] (str_split sep q) = acc @ [?b]"
    unfolding ps acc_def using assms by (simp add: norm_step_proper)
  have joined: "str_join [sep] (acc @ [?b]) = (if acc = [] then ?b else str_join [sep] acc @ [sep] @ ?b)"
    by (rule str_join_snoc)
  have jne: "replicate k sep @ str_join [sep] (acc @ [?b]) \<noteq> []"
    using assms(1) joined by (simp split: if_splits)
  have n: "path_normpath q = replicate k sep @ str_join [sep] (acc @ [?b])"
    unfolding path_normpath_def using qne jne comps
    by (simp add: Let_def k_def[symmetric])
  show ?thesis
  proof (cases "acc = []")
    case True
    then have "path_normpath q = replicate k sep @ ?b"
      using n joined by simp
    then show ?thesis
      using bs by (simp add: basename_slashes)
  next
    case False
    then have e: "path_normpath q = (replicate k sep @ str_join [sep] acc) @ sep # ?b"
      using n joined by simp
    have "path_basename ((replicate k sep @ str_join [sep] acc) @ sep # ?b) = ?b"
      using bs by (rule basename_append_no_sep)
    then show ?thesis
      by (simp only: e)
  qed
qed

lemma basename_join_any: "\<exists>z. path_join d (x @ s) = z @ s"
  unfolding path_join_def by (simp split: if_splits)

lemma abspath_arg_basename:
  "path_basename (if path_isabs p then p else path_join cwd p) = path_basename p"
proof (cases "path_isabs p")
  case True
  then show ?thesis by simp
next
  case False
  then have ns: "\<not> startswith p [sep]"
    unfolding path_isabs_def .
  show ?thesis
  proof (cases "cwd = [] \<or> endswith cwd [sep]")
    case False
    then have "path_join cwd p = cwd @ sep # p"
      using ns unfolding path_join_def by simp
    then show ?thesis
      using \<open>\<not> path_isabs p\<close> by (simp add: basename_after_sep)
  next
    case True
    then have j: "path_join cwd p = cwd @ p"
      using ns unfolding path_join_def by simp
    show ?thesis
    proof (cases "cwd = []")
      case True
      then show ?thesis using j \<open>\<not> path_isabs p\<close> by simp
    next
      case False
      then obtain r where "cwd = r @ [sep]"
        using True unfolding endswith_iff by blast
      then have "path_join cwd p = r @ sep # p"
        using j by simp
      then show ?thesis
        using \<open>\<not> path_isabs p\<close> by (simp add: basename_after_sep)
    qed
  qed
qed

lemma abspath_basename:
  assumes "path_basename p \<noteq> []" and "path_basename p \<noteq> ''.''" and "path_basename p \<noteq> ''..''"
  shows "path_basename (path_abspath cwd p) = path_basename p"
proof -
  let ?a = "if path_isabs p then p else path_join cwd p"
  have e: "path_basename ?a = path_basename p"
    by (rule abspath_arg_basename)
  have "path_basename (path_normpath ?a) = path_basename ?a"
    using assms unfolding e[symmetric] by (rule normpath_basename)
  then show ?thesis
    unfolding path_abspath_def using e by simp
qed

subsection \<open>The example directory\<close>

lemma pics_file_path: "pics_file p = Some m \<Longrightarrow> p = ''pics/'' @ m"
proof -
  assume "pics_file p = Some m"
  then have s: "startswith p ''pics/''" and m: "m = drop 5 p"
    unfolding pics_file_def by (simp_all split: if_splits)
  from s obtain r where r: "p = ''pics/'' @ r"
    unfolding startswith_iff by blast
  then have "drop 5 p = r"
    by simp
  then show ?thesis
    using r m by simp
qed

lemma pics_exists_in:
  assumes "os_path_exists pics_os fs p"
  shows "p \<in> insert ''pics'' ((\<lambda>m. ''pics/'' @ m) ` set (map fst fs))"
proof (cases "p = ''pics''")
  case True
  then show ?thesis by simp
next
  case False
  then obtain m where "pics_file p = Some m" "m \<in> set (map fst fs)"
    using assms unfolding pics_os_def by (auto split: option.splits)
  then show ?thesis
    using pics_file_path by blast
qed

lemma pics_finite:
  "finite {n. CHR ''/'' \<notin> set n \<and> os_path_exists pics_os fs (path_join d n)}"
proof -
  let ?F = "insert ''pics'' ((\<lambda>m. ''pics/'' @ m) ` set (map fst fs))"
  have "inj_on (path_join d) {n. sep \<notin> set n}"
    by (rule inj_onI) (simp add: path_join_inj)
  moreover have "finite ?F"
    by simp
  ultimately have "finite (path_join d -` ?F \<inter> {n. sep \<notin> set n})"
    by (intro finite_vimage_IntI)
  moreover have "{n. CHR ''/'' \<notin> set n \<and> os_path_exists pics_os fs (path_join d n)}
                 \<subseteq> path_join d -` ?F \<inter> {n. sep \<notin> set n}"
    using pics_exists_in[of fs] unfolding sep_def by auto
  ultimately show ?thesis
    by (rule rev_finite_subset)
qed

lemma example_prefix:
  "get_modification_prefix pics_os [(''photo.jpg'', march5)] ''pics/photo.jpg''
     ''%Y-%m-%d-%H-%M-%S'' = Inr ''2024-03-05-14-30-00''"
  by code_simp

lemma example_name:
  "build_prefixed_name ''pics/photo.jpg'' ''2024-03-05-14-30-00''
     = ''pics/2024-03-05-14-30-00_photo.jpg''"
  by code_simp

lemma example_free:
  "ensure_unique_path pics_os [(''photo.jpg'', march5)] ''pics/2024-03-05-14-30-00_photo.jpg''
     = Some ''pics/2024-03-05-14-30-00_photo.jpg''"
  by code_simp

lemma example_taken:
  "ensure_unique_path pics_os
     [(''photo.jpg'', march5), (''2024-03-05-14-30-00_photo.jpg'', march5)]
     ''pics/2024-03-05-14-30-00_photo.jpg''
     = Some ''pics/2024-03-05-14-30-00_photo-1.jpg''"
  by code_simp

lemma witness_exists:
  "os_path_exists pics_os
     [(''photo.jpg'', march5), (''2024_photo.jpg'', march5), (''2024_photo-1.jpg'', march5)]
     ''pics/2024_photo.jpg''"
  by code_simp

lemma witness_numbered:
  "numbered ''pics/2024_photo.jpg'' 1 = ''pics/2024_photo-1.jpg''"
  "numbered ''pics/2024_photo.jpg'' (Suc 1) = ''pics/2024_photo-2.jpg''"
  by code_simp+

lemma witness_exists_1:
  "os_path_exists pics_os
     [(''photo.jpg'', march5), (''2024_photo.jpg'', march5), (''2024_photo-1.jpg'', march5)]
     ''pics/2024_photo-1.jpg''"
  by code_simp

lemma witness_free_2:
  "\<not> os_path_exists pics_os
     [(''photo.jpg'', march5), (''2024_photo.jpg'', march5), (''2024_photo-1.jpg'', march5)]
     ''pics/2024_photo-2.jpg''"
  by code_simp

subsection \<open>The extension filter\<close>

lemma collect_targets_next_step:
  "iter_files_next os fs g = Some (Yield p g') \<Longrightarrow>
   collect_targets_next os fs ext g =
     (if os_path_isfile os fs p \<and> str_lower os (snd (path_splitext p)) = ext
      then Some (Yield p g') else collect_targets_next os fs ext g')"
  by (subst collect_targets_next.simps) simp

lemma collect_targets_next_stop:
  "iter_files_next os fs g = Some Stop \<Longrightarrow> collect_targets_next os fs ext g = Some Stop"
  by (subst collect_targets_next.simps) simp

lemma collect_targets_next_throw:
  "iter_files_next os fs g = Some (Throw e) \<Longrightarrow> collect_targets_next os fs ext g = Some (Throw e)"
  by (subst collect_targets_next.simps) simp

lemma collect_targets_next_none:
  "iter_files_next os fs g = None \<Longrightarrow> collect_targets_next os fs ext g = None"
  by (subst collect_targets_next.simps) simp

lemma collect_targets_next_sound_aux:
  fixes os :: "('fs, 'ts, 'dt, 'it) os"
  shows "collect_targets_next os fs ext g = Some y \<Longrightarrow>
   (\<forall>p g'. y = Yield p g' \<longrightarrow>
      os_path_isfile os fs p \<and> str_lower os (snd (path_splitext p)) = ext)"
proof (rule collect_targets_next.raw_induct[where P = "\<lambda>os fs ext g y.
    \<forall>p g'. y = Yield p g' \<longrightarrow>
      os_path_isfile os fs p \<and> str_lower os (snd (path_splitext p)) = ext"])
  show "collect_targets_next os fs ext g = Some y \<Longrightarrow> collect_targets_next os fs ext g = Some y" .
next
  fix f :: "('fs, 'ts, 'dt, 'it) os \<Rightarrow> 'fs \<Rightarrow> string \<Rightarrow> 'it files_gen \<Rightarrow> 'it files_gen step option"
  fix os :: "('fs, 'ts, 'dt, 'it) os" and fs ext g y
  assume IH: "\<And>os fs ext g y. f os fs ext g = Some y \<Longrightarrow>
     \<forall>p g'. y = Yield p g' \<longrightarrow>
       os_path_isfile os fs p \<and> str_lower os (snd (path_splitext p)) = ext"
  assume body: "(case iter_files_next os fs g of
        None \<Rightarrow> None
      | Some Stop \<Rightarrow> Some Stop
      | Some (Throw e) \<Rightarrow> Some (Throw e)
      | Some (Yield path g') \<Rightarrow>
          if \<not> os_path_isfile os fs path then f os fs ext g'
          else if str_lower os (snd (path_splitext path)) = ext then Some (Yield path g')
          else f os fs ext g') = Some y"
  show "\<forall>p g'. y = Yield p g' \<longrightarrow>
       os_path_isfile os fs p \<and> str_lower os (snd (path_splitext p)) = ext"
  proof (cases "iter_files_next os fs g")
    case None
    then show ?thesis using body by simp
  next
    case (Some st)
    show ?thesis
    proof (cases st)
      case Stop
      then show ?thesis using body Some by auto
    next
      case (Throw e)
      then show ?thesis using body Some by auto
    next
      case (Yield path h)
      show ?thesis
      proof (cases "os_path_isfile os fs path \<and> str_lower os (snd (path_splitext path)) = ext")
        case True
        then have "y = Yield path h"
          using body Some Yield by simp
        then show ?thesis using True by simp
      next
        case False
        then have "f os fs ext h = Some y"
          using body Some Yield by (simp split: if_splits)
        then show ?thesis by (rule IH)
      qed
    qed
  qed
qed

lemma collect_targets_next_sound:
  assumes "collect_targets_next os fs ext g = Some (Yield p g')"
  shows "os_path_isfile os fs p \<and> str_lower os (snd (path_splitext p)) = ext"
proof -
  have "\<forall>q h. Yield p g' = Yield q h \<longrightarrow>
      os_path_isfile os fs q \<and> str_lower os (snd (path_splitext q)) = ext"
    using assms by (rule collect_targets_next_sound_aux)
  then show ?thesis
    by simp
qed

lemma yields_cong:
  "collect_targets_next os fs ext g = collect_targets_next os fs ext h \<Longrightarrow>
   yields os fs ext g ps = yields os fs ext h ps"
  by (cases ps) simp_all

lemma files_yield_filter:
  "files_yield os fs g paths \<Longrightarrow>
   yields os fs ext g
     (filter (\<lambda>p. os_path_isfile os fs p \<and> str_lower os (snd (path_splitext p)) = ext) paths)"
proof (induction paths arbitrary: g)
  case Nil
  then have "iter_files_next os fs g = Some Stop"
    by simp
  then have "collect_targets_next os fs ext g = Some Stop"
    by (rule collect_targets_next_stop)
  then show ?case by simp
next
  case (Cons p ps)
  from Cons.prems obtain g' where n: "iter_files_next os fs g = Some (Yield p g')"
    and r: "files_yield os fs g' ps"
    by (auto split: option.splits step.splits)
  let ?P = "\<lambda>p. os_path_isfile os fs p \<and> str_lower os (snd (path_splitext p)) = ext"
  have ih: "yields os fs ext g' (filter ?P ps)"
    using r by (rule Cons.IH)
  note st = collect_targets_next_step[OF n, of ext]
  show ?case
  proof (cases "?P p")
    case True
    have "collect_targets_next os fs ext g = Some (Yield p g')"
      unfolding st using True by (rule if_P)
    then have "yields os fs ext g (p # filter ?P ps)"
      using ih by simp
    moreover have "filter ?P (p # ps) = p # filter ?P ps"
      using True by simp
    ultimately show ?thesis
      by (simp only:)
  next
    case False
    have "collect_targets_next os fs ext g = collect_targets_next os fs ext g'"
      unfolding st using False by (rule if_not_P)
    then have "yields os fs ext g (filter ?P ps) = yields os fs ext g' (filter ?P ps)"
      by (rule yields_cong)
    then have "yields os fs ext g (filter ?P ps)"
      using ih by (simp only:)
    moreover have "filter ?P (p # ps) = filter ?P ps"
      using False by simp
    ultimately show ?thesis
      by (simp only:)
  qed
qed

lemma normalize_ext_form:
  "normalize_ext os raw =
     (if str_strip os raw = [] then []
      else str_lower os (if startswith (str_strip os raw) ''.'' then str_strip os raw
                         else ''.'' @ str_strip os raw))"
  unfolding normalize_ext_def by (simp add: Let_def)

lemma example_ext: "normalize_ext pics_os ''jpg'' = ''.jpg''"
  by code_simp

lemma example_filter_walk:
  "yields pics_os
     [(''a.jpg'', march5), (''b.JPG'', march5), (''c.png'', march5), (''d.jpeg'', march5)]
     ''.jpg'' (Fresh ''pics'' True) [''pics/a.jpg'', ''pics/b.JPG'']"
  by code_simp

lemma example_filter_scandir:
  "yields pics_os
     [(''a.jpg'', march5), (''b.JPG'', march5), (''c.png'', march5), (''d.jpeg'', march5)]
     ''.jpg'' (Fresh ''pics'' False) [''pics/a.jpg'', ''pics/b.JPG'']"
  by code_simp

lemma example_filter:
  "yields pics_os
     [(''a.jpg'', march5), (''b.JPG'', march5), (''c.png'', march5), (''d.jpeg'', march5)]
     ''.jpg'' (Fresh ''pics'' recursive) [''pics/a.jpg'', ''pics/b.JPG'']"
proof (cases recursive)
  case True
  then show ?thesis by (simp only: example_filter_walk)
next
  case False
  then show ?thesis by (simp only: example_filter_scandir)
qed

lemma witness_files:
  "files_yield pics_os [(''a.jpg'', march5), (''b.JPG'', march5), (''notes.txt'', march5)]
     (Fresh ''pics'' False) [''pics/a.jpg'', ''pics/b.JPG'', ''pics/notes.txt'']"
  by code_simp

lemma witness_filter:
  "filter (\<lambda>p. os_path_isfile pics_os
                   [(''a.jpg'', march5), (''b.JPG'', march5), (''notes.txt'', march5)] p
               \<and> str_lower pics_os (snd (path_splitext p)) = ''.jpg'')
     [''pics/a.jpg'', ''pics/b.JPG'', ''pics/notes.txt'']
   = [''pics/a.jpg'', ''pics/b.JPG'']"
  by code_simp

subsection \<open>The rename step\<close>


lemma os_path_abspath_Inr:
  "os_path_abspath os fs p = Inr a \<Longrightarrow> \<exists>cwd. a = path_abspath cwd p"
  unfolding os_path_abspath_def path_abspath_def by (auto split: if_splits sum.splits)

lemma os_path_abspath_cwd:
  "os_getcwd os fs = Inr cwd \<Longrightarrow> os_path_abspath os fs p = Inr (path_abspath cwd p)"
  unfolding os_path_abspath_def path_abspath_def by simp

lemma os_path_abspath_pair:
  assumes "os_path_abspath os fs p = Inr a" and "os_path_abspath os fs q = Inr b"
  shows "\<exists>cwd. a = path_abspath cwd p \<and> b = path_abspath cwd q"
proof (cases "os_getcwd os fs")
  case (Inr cwd)
  then show ?thesis
    using assms by (auto simp add: os_path_abspath_cwd)
next
  case (Inl e)
  then have "path_isabs p" and "path_isabs q"
    using assms unfolding os_path_abspath_def by (simp_all split: if_splits)
  then have "a = path_abspath [] p \<and> b = path_abspath [] q"
    using assms unfolding os_path_abspath_def path_abspath_def by simp
  then show ?thesis ..
qed












subsection \<open>The target and the original\<close>

lemma candidate_proper:
  assumes "snd (path_splitext p) \<noteq> []"
  shows "path_basename p \<noteq> []" and "path_basename p \<noteq> ''.''" and "path_basename p \<noteq> ''..''"
proof -
  let ?b = "path_basename p"
  let ?d = "dropWhile (\<lambda>c. c \<noteq> extsep) (rev ?b)"
  have cond: "extsep \<in> set ?b \<and> (\<exists>c \<in> set (rev (tl ?d)). c \<noteq> extsep)"
  proof (rule ccontr)
    assume "\<not> (extsep \<in> set ?b \<and> (\<exists>c \<in> set (rev (tl ?d)). c \<noteq> extsep))"
    then have "path_splitext p = (p, [])"
      unfolding path_splitext_eq by (rule if_not_P)
    then show False using assms by simp
  qed
  then obtain c where c: "c \<in> set (tl ?d)" "c \<noteq> extsep"
    by auto
  have "?d \<noteq> []"
  proof
    assume "?d = []"
    then have "tl ?d = []" by (simp only: list.sel)
    then show False using c(1) by (simp only: list.set empty_iff)
  qed
  then have "c \<in> set ?d"
    using c(1) by (rule list.set_sel(2))
  then have "c \<in> set (rev ?b)"
    by (rule set_dropWhileD)
  then have cb: "c \<in> set ?b"
    by simp
  show "?b \<noteq> []"
    using cb by auto
  show "?b \<noteq> ''.''"
    using cb c(2) unfolding extsep_def by auto
  show "?b \<noteq> ''..''"
    using cb c(2) unfolding extsep_def by auto
qed

lemma basename_build:
  "\<exists>z. path_basename (build_prefixed_name path prefix) = z @ ''_'' @ path_basename path"
proof -
  let ?f = "path_basename path"
  have b: "build_prefixed_name path prefix = path_join (fst (path_split path)) (prefix @ ''_'' @ ?f)"
    unfolding build_prefixed_name_def by (simp add: path_split_eq)
  obtain z where z: "path_join (fst (path_split path)) (prefix @ ''_'' @ ?f) = z @ ''_'' @ ?f"
    using basename_join_any by blast
  have "sep \<notin> set (''_'' @ ?f)"
    using basename_no_sep[of path] by (simp add: sep_def)
  then have "path_basename (z @ ''_'' @ ?f) = path_basename z @ ''_'' @ ?f"
    by (rule basename_append)
  then have "path_basename (build_prefixed_name path prefix) = path_basename z @ ''_'' @ ?f"
    using b z by simp
  then show ?thesis ..
qed

lemma basename_join: "sep \<notin> set n \<Longrightarrow> path_basename (path_join d n) = n"
proof -
  assume n: "sep \<notin> set n"
  show ?thesis
  proof (cases "d = [] \<or> endswith d [sep]")
    case False
    then show ?thesis
      using n by (simp add: path_join_no_sep basename_append_no_sep)
  next
    case True
    show ?thesis
    proof (cases "d = []")
      case True
      then show ?thesis using n by (simp add: path_join_no_sep basename_of_no_sep)
    next
      case False
      then obtain r where "d = r @ [sep]"
        using True unfolding endswith_iff by blast
      then have "path_join d n = r @ sep # n"
        using n True by (simp add: path_join_no_sep)
      then show ?thesis
        using n by (simp add: basename_append_no_sep)
    qed
  qed
qed

lemma basename_numbered:
  "path_basename (numbered q i) =
     fst (path_splitext (path_basename q)) @ ''-'' @ str_nat i @ snd (path_splitext (path_basename q))"
proof -
  let ?f = "path_basename q"
  have f: "snd (path_split q) = ?f"
    by (simp add: path_split_eq)
  have "sep \<notin> set ?f"
    by (rule basename_no_sep)
  then have "sep \<notin> set (fst (path_splitext ?f) @ ''-'' @ str_nat i @ snd (path_splitext ?f))"
    by (intro suffixed_no_sep splitext_no_sep)
  then show ?thesis
    unfolding numbered_eq f by (rule basename_join)
qed

lemma length_numbered: "length (path_basename (numbered q i)) > length (path_basename q)"
proof -
  let ?f = "path_basename q"
  have "length (fst (path_splitext ?f) @ snd (path_splitext ?f)) = length ?f"
    by (simp only: splitext_parts)
  then show ?thesis
    unfolding basename_numbered by simp
qed

lemma proper_numbered:
  "path_basename (numbered q i) \<noteq> []" "path_basename (numbered q i) \<noteq> ''.''"
  "path_basename (numbered q i) \<noteq> ''..''"
proof -
  have "CHR ''-'' \<in> set (path_basename (numbered q i))"
    unfolding basename_numbered by simp
  then show "path_basename (numbered q i) \<noteq> []" "path_basename (numbered q i) \<noteq> ''.''"
    "path_basename (numbered q i) \<noteq> ''..''"
    by auto
qed

lemma unique_target_basename:
  assumes "ensure_unique_path os fs (build_prefixed_name path prefix) = Some target"
  shows "length (path_basename path) < length (path_basename target)"
    and "path_basename target \<noteq> []" and "path_basename target \<noteq> ''.''"
    and "path_basename target \<noteq> ''..''"
proof -
  let ?np = "build_prefixed_name path prefix"
  obtain z where z: "path_basename ?np = z @ ''_'' @ path_basename path"
    using basename_build by blast
  have u: "CHR ''_'' \<in> set (path_basename ?np)"
    unfolding z by simp
  have l: "length (path_basename path) < length (path_basename ?np)"
    unfolding z by simp
  note r = ensure_unique_path_first[OF assms]
  have "target = ?np \<or> (\<exists>i. target = numbered ?np i)"
  proof (cases "os_path_exists os fs ?np")
    case False
    then show ?thesis using r by simp
  next
    case True
    then have "\<exists>i\<ge>1. target = numbered ?np i
        \<and> (\<forall>j. 1 \<le> j \<and> j < i \<longrightarrow> os_path_exists os fs (numbered ?np j))"
      using r by simp
    then obtain i where "target = numbered ?np i"
      by blast
    then show ?thesis by blast
  qed
  then consider (same) "target = ?np" | (num) i where "target = numbered ?np i"
    by blast
  then have "length (path_basename path) < length (path_basename target)
    \<and> path_basename target \<noteq> [] \<and> path_basename target \<noteq> ''.''
    \<and> path_basename target \<noteq> ''..''"
  proof cases
    case same
    have "path_basename ?np \<noteq> []" "path_basename ?np \<noteq> ''.''" "path_basename ?np \<noteq> ''..''"
      using u by auto
    then show ?thesis
      using same l by simp
  next
    case num
    have "length (path_basename ?np) < length (path_basename (numbered ?np i))"
      by (rule length_numbered)
    then have "length (path_basename path) < length (path_basename (numbered ?np i))"
      using l by simp
    then show ?thesis
      unfolding num using proper_numbered[of ?np i] by simp
  qed
  then show "length (path_basename path) < length (path_basename target)"
    and "path_basename target \<noteq> []" and "path_basename target \<noteq> ''.''"
    and "path_basename target \<noteq> ''..''"
    by simp_all
qed

lemma unique_target_differs:
  assumes "snd (path_splitext path) \<noteq> []"
    and "ensure_unique_path os fs (build_prefixed_name path prefix) = Some target"
  shows "path_abspath cwd path \<noteq> path_abspath cwd target"
proof
  assume e: "path_abspath cwd path = path_abspath cwd target"
  have "path_basename (path_abspath cwd path) = path_basename path"
    using candidate_proper[OF assms(1)] by (rule abspath_basename)
  moreover have "path_basename (path_abspath cwd target) = path_basename target"
    using unique_target_basename(2-4)[OF assms(2)] by (rule abspath_basename)
  ultimately have "path_basename path = path_basename target"
    using e by simp
  then show False
    using unique_target_basename(1)[OF assms(2)] by simp
qed

lemma rename_one_skipped:
  fixes t :: "'fs tally"
  assumes "snd (path_splitext path) \<noteq> []"
    and "rename_one os pattern t path = Some t'" and "skipped t' \<noteq> skipped t"
  shows "skip_already_prefixed_var (app_of t)
         \<and> (\<exists>prefix. get_modification_prefix os (disk (app_of t)) path pattern = Inr prefix
               \<and> should_skip_already_prefixed (snd (path_split path)) prefix)"
proof (cases "get_modification_prefix os (disk (app_of t)) path pattern")
  case (Inl e)
  then have "t' = caught t path e"
    using assms(2) unfolding rename_one_def by (simp add: Let_def)
  then show ?thesis
    using assms(3) unfolding caught_def by simp
next
  case (Inr prefix)
  note pre = Inr
  show ?thesis
  proof (cases "skip_already_prefixed_var (app_of t)
                \<and> should_skip_already_prefixed (snd (path_split path)) prefix")
    case True
    then show ?thesis using pre by simp
  next
    case nskip: False
    show ?thesis
    proof (cases "ensure_unique_path os (disk (app_of t)) (build_prefixed_name path prefix)")
      case None
      then show ?thesis
        using assms(2) pre nskip unfolding rename_one_def by (simp add: Let_def)
    next
      case (Some target)
      show ?thesis
      proof (cases "os_path_abspath os (disk (app_of t)) path")
        case (Inl e)
        then have "t' = caught t path e"
          using assms(2) pre nskip Some unfolding rename_one_def by (simp add: Let_def)
        then show ?thesis
          using assms(3) unfolding caught_def by simp
      next
        case (Inr a)
        note ap = Inr
        show ?thesis
        proof (cases "os_path_abspath os (disk (app_of t)) target")
          case (Inl e)
          then have "t' = caught t path e"
            using assms(2) pre nskip Some ap unfolding rename_one_def by (simp add: Let_def)
          then show ?thesis
            using assms(3) unfolding caught_def by simp
        next
          case (Inr b)
          note at = Inr
          obtain cwd where "a = path_abspath cwd path" and "b = path_abspath cwd target"
            using os_path_abspath_pair[OF ap at] by blast
          moreover have "path_abspath cwd path \<noteq> path_abspath cwd target"
            using assms(1) Some by (rule unique_target_differs)
          ultimately have ne: "a \<noteq> b"
            by simp
          show ?thesis
          proof (cases "os_rename os (disk (app_of t)) path target")
            case (Inl e)
            then have "t' = caught t path e"
              using assms(2) pre nskip Some ap at ne unfolding rename_one_def
              by (simp add: Let_def)
            then show ?thesis
              using assms(3) unfolding caught_def by simp
          next
            case r: (Inr fs')
            then have "skipped t' = skipped t"
              using assms(2) pre nskip Some ap at ne unfolding rename_one_def
              by (auto simp add: Let_def)
            then show ?thesis using assms(3) by simp
          qed
        qed
      qed
    qed
  qed
qed

lemma witness_candidate: "snd (path_splitext ''pics/b.JPG'') \<noteq> []"
  by code_simp

lemma witness_target:
  "ensure_unique_path pics_os [(''b.JPG'', march5), (''2024_b.JPG'', march5)]
     (build_prefixed_name ''pics/b.JPG'' ''2024'') = Some ''pics/2024_b-1.JPG''"
  by code_simp

section \<open>The claims\<close>

text \<open>
  C4.  \<open>should_skip_already_prefixed\<close> holds exactly when the file name is the prefix,
  one underscore, and any remainder: a comparison of the two strings it is given and
  of nothing else.
\<close>

theorem should_skip_iff_textual_prefix:
  "should_skip_already_prefixed filename prefix \<longleftrightarrow> (\<exists>rest. filename = prefix @ ''_'' @ rest)"
  unfolding should_skip_already_prefixed_def startswith_iff by simp

text \<open>
  C5 (as amended).  When the prefix holds no path separator, \<open>build_prefixed_name\<close>
  yields a path that splits into the directory of the original path and the file name
  made of the prefix, one underscore and the original file name unchanged.
\<close>

theorem build_prefixed_name_split:
  assumes "CHR ''/'' \<notin> set prefix"
  shows "path_split (build_prefixed_name path prefix) =
         (fst (path_split path), prefix @ ''_'' @ snd (path_split path))"
proof -
  have "sep \<notin> set (path_basename path)"
    by (rule basename_no_sep)
  then have "sep \<notin> set (prefix @ ''_'' @ snd (path_split path))"
    using assms unfolding path_split_def sep_def by (simp add: Let_def)
  then have "path_split (path_join (fst (path_split path)) (prefix @ ''_'' @ snd (path_split path)))
             = (fst (path_split path), prefix @ ''_'' @ snd (path_split path))"
    by (rule split_join)
  then show ?thesis
    unfolding build_prefixed_name_def by (simp add: case_prod_beta Let_def)
qed

theorem build_prefixed_name_split_witness:
  "CHR ''/'' \<notin> set ''2024-03-05'' \<and>
   path_split (build_prefixed_name ''pics/photo.jpg'' ''2024-03-05'') = (''pics'', ''2024-03-05_photo.jpg'')"
  using build_prefixed_name_split [of "''2024-03-05''" "''pics/photo.jpg''"]
  by (simp add: path_split_def path_head_def path_basename_def rstrip_sep_def sep_def Let_def)

text \<open>
  The claim as written, for every prefix, fails: a prefix with a separator moves the
  result into another directory and only its last piece stays in the file name.
\<close>

theorem build_prefixed_name_split_counterexample:
  "path_split (build_prefixed_name ''pics/photo.jpg'' ''05/03'') \<noteq>
   (fst (path_split ''pics/photo.jpg''), ''05/03'' @ ''_'' @ snd (path_split ''pics/photo.jpg''))"
  by (simp add: build_prefixed_name_def path_join_def startswith_def endswith_def
      path_split_def path_head_def path_basename_def rstrip_sep_def sep_def Let_def)

text \<open>
  C1.  Where nothing exists at the target, \<open>ensure_unique_path\<close> returns the target
  itself.  Where the target exists and the numbered paths \<open>stem-1.ext\<close> to \<open>stem-k.ext\<close>
  of its directory exist while \<open>stem-(k+1).ext\<close> does not, the loop returns
  \<open>stem-(k+1).ext\<close>: the first free one, counting from 1.  Conversely whatever is
  returned does not exist, and a result for an existing target is a numbered path
  with every numbered path before it existing.  Where the target and every numbered
  path exist the loop never returns.
  For \<open>photo.jpg\<close> last modified on 2024-03-05 at 14:30:00 the pattern
  \<open>%Y-%m-%d-%H-%M-%S\<close> gives the name \<open>2024-03-05-14-30-00_photo.jpg\<close>, and
  \<open>2024-03-05-14-30-00_photo-1.jpg\<close> once that name is taken.
\<close>

theorem ensure_unique_path_first_free:
  "(\<not> os_path_exists os fs target \<longrightarrow> ensure_unique_path os fs target = Some target)
   \<and> (\<forall>k. os_path_exists os fs target
            \<and> (\<forall>j. 1 \<le> j \<and> j \<le> k \<longrightarrow> os_path_exists os fs (numbered target j))
            \<and> \<not> os_path_exists os fs (numbered target (Suc k))
          \<longrightarrow> ensure_unique_path os fs target = Some (numbered target (Suc k)))
   \<and> (\<forall>r. ensure_unique_path os fs target = Some r \<longrightarrow> \<not> os_path_exists os fs r)
   \<and> (\<forall>r. os_path_exists os fs target \<and> ensure_unique_path os fs target = Some r \<longrightarrow>
         (\<exists>i\<ge>1. r = numbered target i
            \<and> (\<forall>j. 1 \<le> j \<and> j < i \<longrightarrow> os_path_exists os fs (numbered target j))))
   \<and> (os_path_exists os fs target \<and> (\<forall>i\<ge>1. os_path_exists os fs (numbered target i))
        \<longrightarrow> ensure_unique_path os fs target = None)
   \<and> get_modification_prefix pics_os [(''photo.jpg'', march5)] ''pics/photo.jpg''
         ''%Y-%m-%d-%H-%M-%S'' = Inr ''2024-03-05-14-30-00''
   \<and> build_prefixed_name ''pics/photo.jpg'' ''2024-03-05-14-30-00''
         = ''pics/2024-03-05-14-30-00_photo.jpg''
   \<and> ensure_unique_path pics_os [(''photo.jpg'', march5)]
         ''pics/2024-03-05-14-30-00_photo.jpg'' = Some ''pics/2024-03-05-14-30-00_photo.jpg''
   \<and> ensure_unique_path pics_os
         [(''photo.jpg'', march5), (''2024-03-05-14-30-00_photo.jpg'', march5)]
         ''pics/2024-03-05-14-30-00_photo.jpg'' = Some ''pics/2024-03-05-14-30-00_photo-1.jpg''"
proof -
  have a: "\<not> os_path_exists os fs target \<longrightarrow> ensure_unique_path os fs target = Some target"
    by (simp add: ensure_unique_path_eq)
  have r: "\<forall>k. os_path_exists os fs target
            \<and> (\<forall>j. 1 \<le> j \<and> j \<le> k \<longrightarrow> os_path_exists os fs (numbered target j))
            \<and> \<not> os_path_exists os fs (numbered target (Suc k))
          \<longrightarrow> ensure_unique_path os fs target = Some (numbered target (Suc k))"
  proof (intro allI impI)
    fix k
    assume "os_path_exists os fs target
              \<and> (\<forall>j. 1 \<le> j \<and> j \<le> k \<longrightarrow> os_path_exists os fs (numbered target j))
              \<and> \<not> os_path_exists os fs (numbered target (Suc k))"
    then show "ensure_unique_path os fs target = Some (numbered target (Suc k))"
      by (intro ensure_unique_path_reaches) simp_all
  qed
  have b: "\<forall>r. ensure_unique_path os fs target = Some r \<longrightarrow> \<not> os_path_exists os fs r"
  proof (intro allI impI)
    fix r assume "ensure_unique_path os fs target = Some r"
    from ensure_unique_path_first[OF this] show "\<not> os_path_exists os fs r" ..
  qed
  have c: "\<forall>r. os_path_exists os fs target \<and> ensure_unique_path os fs target = Some r \<longrightarrow>
         (\<exists>i\<ge>1. r = numbered target i
            \<and> (\<forall>j. 1 \<le> j \<and> j < i \<longrightarrow> os_path_exists os fs (numbered target j)))"
  proof (intro allI impI)
    fix r assume h: "os_path_exists os fs target \<and> ensure_unique_path os fs target = Some r"
    then have "ensure_unique_path os fs target = Some r" ..
    from ensure_unique_path_first[OF this] h
    show "\<exists>i\<ge>1. r = numbered target i
            \<and> (\<forall>j. 1 \<le> j \<and> j < i \<longrightarrow> os_path_exists os fs (numbered target j))"
      by simp
  qed
  have d: "os_path_exists os fs target \<and> (\<forall>i\<ge>1. os_path_exists os fs (numbered target i))
        \<longrightarrow> ensure_unique_path os fs target = None"
  proof (intro impI)
    assume h: "os_path_exists os fs target \<and> (\<forall>i\<ge>1. os_path_exists os fs (numbered target i))"
    show "ensure_unique_path os fs target = None"
    proof (cases "ensure_unique_path os fs target")
      case None
      then show ?thesis .
    next
      case (Some r)
      from ensure_unique_path_first[OF Some] h
      have "\<not> os_path_exists os fs r" and "\<exists>i\<ge>1. r = numbered target i"
        by simp_all
      then show ?thesis
        using h by auto
    qed
  qed
  show ?thesis
    by (intro conjI a r b c d example_prefix example_name example_free example_taken)
qed

theorem ensure_unique_path_first_free_witness:
  "os_path_exists pics_os
     [(''photo.jpg'', march5), (''2024_photo.jpg'', march5), (''2024_photo-1.jpg'', march5)]
     ''pics/2024_photo.jpg''
   \<and> os_path_exists pics_os
     [(''photo.jpg'', march5), (''2024_photo.jpg'', march5), (''2024_photo-1.jpg'', march5)]
     ''pics/2024_photo-1.jpg''
   \<and> \<not> os_path_exists pics_os
     [(''photo.jpg'', march5), (''2024_photo.jpg'', march5), (''2024_photo-1.jpg'', march5)]
     ''pics/2024_photo-2.jpg''
   \<and> ensure_unique_path pics_os
     [(''photo.jpg'', march5), (''2024_photo.jpg'', march5), (''2024_photo-1.jpg'', march5)]
     ''pics/2024_photo.jpg'' = Some ''pics/2024_photo-2.jpg''"
proof -
  let ?fs = "[(''photo.jpg'', march5), (''2024_photo.jpg'', march5), (''2024_photo-1.jpg'', march5)]"
  let ?t = "''pics/2024_photo.jpg''"
  note th = ensure_unique_path_first_free[of pics_os ?fs ?t]
  have reach: "\<forall>k. os_path_exists pics_os ?fs ?t
            \<and> (\<forall>j. 1 \<le> j \<and> j \<le> k \<longrightarrow> os_path_exists pics_os ?fs (numbered ?t j))
            \<and> \<not> os_path_exists pics_os ?fs (numbered ?t (Suc k))
          \<longrightarrow> ensure_unique_path pics_os ?fs ?t = Some (numbered ?t (Suc k))"
    by (rule conjunct1[OF conjunct2[OF th]])
  have one: "\<forall>j. 1 \<le> j \<and> j \<le> (1::nat) \<longrightarrow> os_path_exists pics_os ?fs (numbered ?t j)"
  proof (intro allI impI)
    fix j :: nat assume "1 \<le> j \<and> j \<le> 1"
    then have "j = 1" by simp
    then show "os_path_exists pics_os ?fs (numbered ?t j)"
      using witness_exists_1 witness_numbered(1) by simp
  qed
  have free: "\<not> os_path_exists pics_os ?fs (numbered ?t (Suc 1))"
    using witness_free_2 witness_numbered(2) by simp
  have "ensure_unique_path pics_os ?fs ?t = Some (numbered ?t (Suc 1))"
    by (rule mp[OF spec[OF reach, of 1]]) (intro conjI witness_exists one free)
  then have res: "ensure_unique_path pics_os ?fs ?t = Some ''pics/2024_photo-2.jpg''"
    using witness_numbered(2) by simp
  show ?thesis
    by (intro conjI witness_exists witness_exists_1 witness_free_2 res)
qed

text \<open>
  C9.  When the directory of the target holds finitely many entries, the loop of
  \<open>ensure_unique_path\<close> ends and returns a path.  The counter has no ceiling: whatever
  the number \<open>k\<close> of numbered paths already taken, the loop goes on to \<open>k + 1\<close>.
\<close>

theorem ensure_unique_path_terminates:
  assumes "finite {n. CHR ''/'' \<notin> set n
                      \<and> os_path_exists os fs (path_join (fst (path_split target)) n)}"
  shows "(\<exists>r. ensure_unique_path os fs target = Some r)
         \<and> (\<forall>k. os_path_exists os fs target
                  \<and> (\<forall>j. 1 \<le> j \<and> j \<le> k \<longrightarrow> os_path_exists os fs (numbered target j))
                  \<and> \<not> os_path_exists os fs (numbered target (Suc k))
                \<longrightarrow> ensure_unique_path os fs target = Some (numbered target (Suc k)))"
proof
  show "\<exists>r. ensure_unique_path os fs target = Some r"
    using assms unfolding sep_def[symmetric] by (rule ensure_unique_path_total)
  show "\<forall>k. os_path_exists os fs target
                  \<and> (\<forall>j. 1 \<le> j \<and> j \<le> k \<longrightarrow> os_path_exists os fs (numbered target j))
                  \<and> \<not> os_path_exists os fs (numbered target (Suc k))
                \<longrightarrow> ensure_unique_path os fs target = Some (numbered target (Suc k))"
  proof (intro allI impI)
    fix k
    assume "os_path_exists os fs target
              \<and> (\<forall>j. 1 \<le> j \<and> j \<le> k \<longrightarrow> os_path_exists os fs (numbered target j))
              \<and> \<not> os_path_exists os fs (numbered target (Suc k))"
    then show "ensure_unique_path os fs target = Some (numbered target (Suc k))"
      by (intro ensure_unique_path_reaches) simp_all
  qed
qed

theorem ensure_unique_path_terminates_witness:
  "finite {n. CHR ''/'' \<notin> set n
              \<and> os_path_exists pics_os [(''2024_a.jpg'', march5), (''2024_a-1.jpg'', march5)]
                    (path_join (fst (path_split ''pics/2024_a.jpg'')) n)}
   \<and> (\<exists>r. ensure_unique_path pics_os [(''2024_a.jpg'', march5), (''2024_a-1.jpg'', march5)]
              ''pics/2024_a.jpg'' = Some r)"
  using ensure_unique_path_terminates
    [of pics_os "[(''2024_a.jpg'', march5), (''2024_a-1.jpg'', march5)]" "''pics/2024_a.jpg''"]
    pics_finite
  by blast

text \<open>
  C2.  A \<^verbatim>\<open>next\<close> on the generator of \<^verbatim>\<open>_collect_targets\<close> yields a path only if
  \<^verbatim>\<open>os.path.isfile\<close> holds of it and its extension, in lower case, is the filter.
  It reads the paths of \<^verbatim>\<open>iter_files\<close> one by one: the path read is yielded if it
  passes the two tests and is passed over otherwise, and the end, an exception or a
  non-returning \<^verbatim>\<open>next\<close> of \<^verbatim>\<open>iter_files\<close> is that of \<^verbatim>\<open>_collect_targets\<close>.  So
  while the machine stands still the paths selected are, in order, exactly the
  enumerated paths that pass the two tests.  The filter that \<open>normalize_ext\<close> makes of
  a text that is not blank is the lower case of the stripped text, with a dot put
  before it unless it starts with one: the two extensions are compared in lower
  case.  With the filter \<open>.jpg\<close>, made of \<open>jpg\<close>, of \<open>a.jpg\<close>, \<open>b.JPG\<close>, \<open>c.png\<close> and
  \<open>d.jpeg\<close> the first two are selected, in both modes of enumeration.
\<close>

theorem collect_targets_iff:
  "(\<forall>p g'. collect_targets_next os fs ext g = Some (Yield p g') \<longrightarrow>
       os_path_isfile os fs p \<and> str_lower os (snd (path_splitext p)) = ext)
   \<and> (\<forall>p g'. iter_files_next os fs g = Some (Yield p g') \<longrightarrow>
         collect_targets_next os fs ext g =
           (if os_path_isfile os fs p \<and> str_lower os (snd (path_splitext p)) = ext
            then Some (Yield p g') else collect_targets_next os fs ext g'))
   \<and> (iter_files_next os fs g = Some Stop \<longrightarrow> collect_targets_next os fs ext g = Some Stop)
   \<and> (\<forall>e. iter_files_next os fs g = Some (Throw e) \<longrightarrow>
         collect_targets_next os fs ext g = Some (Throw e))
   \<and> (iter_files_next os fs g = None \<longrightarrow> collect_targets_next os fs ext g = None)
   \<and> (\<forall>paths. files_yield os fs g paths \<longrightarrow>
         yields os fs ext g
           (filter (\<lambda>p. os_path_isfile os fs p \<and> str_lower os (snd (path_splitext p)) = ext)
              paths))
   \<and> normalize_ext os raw =
       (if str_strip os raw = [] then []
        else str_lower os (if startswith (str_strip os raw) ''.'' then str_strip os raw
                           else ''.'' @ str_strip os raw))
   \<and> normalize_ext pics_os ''jpg'' = ''.jpg''
   \<and> (\<forall>r. yields pics_os
              [(''a.jpg'', march5), (''b.JPG'', march5), (''c.png'', march5),
               (''d.jpeg'', march5)]
              ''.jpg'' (Fresh ''pics'' r) [''pics/a.jpg'', ''pics/b.JPG''])"
proof -
  have a: "\<forall>p g'. collect_targets_next os fs ext g = Some (Yield p g') \<longrightarrow>
       os_path_isfile os fs p \<and> str_lower os (snd (path_splitext p)) = ext"
    by (intro allI impI) (rule collect_targets_next_sound)
  have b: "\<forall>p g'. iter_files_next os fs g = Some (Yield p g') \<longrightarrow>
         collect_targets_next os fs ext g =
           (if os_path_isfile os fs p \<and> str_lower os (snd (path_splitext p)) = ext
            then Some (Yield p g') else collect_targets_next os fs ext g')"
    by (intro allI impI) (rule collect_targets_next_step)
  have c: "iter_files_next os fs g = Some Stop \<longrightarrow> collect_targets_next os fs ext g = Some Stop"
    by (intro impI) (rule collect_targets_next_stop)
  have d: "\<forall>e. iter_files_next os fs g = Some (Throw e) \<longrightarrow>
         collect_targets_next os fs ext g = Some (Throw e)"
    by (intro allI impI) (rule collect_targets_next_throw)
  have e: "iter_files_next os fs g = None \<longrightarrow> collect_targets_next os fs ext g = None"
    by (intro impI) (rule collect_targets_next_none)
  have f: "\<forall>paths. files_yield os fs g paths \<longrightarrow>
         yields os fs ext g
           (filter (\<lambda>p. os_path_isfile os fs p \<and> str_lower os (snd (path_splitext p)) = ext)
              paths)"
    by (intro allI impI) (rule files_yield_filter)
  have h: "\<forall>r. yields pics_os
              [(''a.jpg'', march5), (''b.JPG'', march5), (''c.png'', march5),
               (''d.jpeg'', march5)]
              ''.jpg'' (Fresh ''pics'' r) [''pics/a.jpg'', ''pics/b.JPG'']"
    by (intro allI example_filter)
  show ?thesis
    by (intro conjI a b c d e f normalize_ext_form example_ext h)
qed

theorem collect_targets_iff_witness:
  "files_yield pics_os [(''a.jpg'', march5), (''b.JPG'', march5), (''notes.txt'', march5)]
     (Fresh ''pics'' False) [''pics/a.jpg'', ''pics/b.JPG'', ''pics/notes.txt'']
   \<and> yields pics_os [(''a.jpg'', march5), (''b.JPG'', march5), (''notes.txt'', march5)]
       ''.jpg'' (Fresh ''pics'' False) [''pics/a.jpg'', ''pics/b.JPG'']"
proof -
  let ?fs = "[(''a.jpg'', march5), (''b.JPG'', march5), (''notes.txt'', march5)]"
  note th = collect_targets_iff[of pics_os ?fs "''.jpg''" "Fresh ''pics'' False" "[]"]
  have f: "\<forall>paths. files_yield pics_os ?fs (Fresh ''pics'' False) paths \<longrightarrow>
         yields pics_os ?fs ''.jpg'' (Fresh ''pics'' False)
           (filter (\<lambda>p. os_path_isfile pics_os ?fs p
                        \<and> str_lower pics_os (snd (path_splitext p)) = ''.jpg'') paths)"
    by (rule conjunct1[OF conjunct2[OF conjunct2[OF conjunct2[OF conjunct2[OF conjunct2[OF th]]]]]])
  have "yields pics_os ?fs ''.jpg'' (Fresh ''pics'' False)
           (filter (\<lambda>p. os_path_isfile pics_os ?fs p
                        \<and> str_lower pics_os (snd (path_splitext p)) = ''.jpg'')
              [''pics/a.jpg'', ''pics/b.JPG'', ''pics/notes.txt''])"
    by (rule mp[OF spec[OF f] witness_files])
  then have "yields pics_os ?fs ''.jpg'' (Fresh ''pics'' False) [''pics/a.jpg'', ''pics/b.JPG'']"
    by (simp only: witness_filter)
  then show ?thesis
    by (intro conjI witness_files)
qed




text \<open>
  C10.  For a candidate, a path with an extension (the lower case of the extension of
  a selected path is the filter, which is not empty), the target that
  \<open>ensure_unique_path\<close> resolves from \<open>build_prefixed_name\<close> never has the absolute
  path of the original: its last component is strictly longer than the original's.
  So in the rename step the comparison of the two absolute paths never succeeds, and
  every skip counted for a candidate is a skip of an already prefixed file.
\<close>

theorem target_never_original:
  fixes os :: "('fs, 'ts, 'dt, 'it) os"
  assumes "snd (path_splitext path) \<noteq> []"
  shows "(\<forall>fs prefix target.
            ensure_unique_path os fs (build_prefixed_name path prefix) = Some target \<longrightarrow>
              path_abspath cwd path \<noteq> path_abspath cwd target
              \<and> length (path_basename path) < length (path_basename target))
         \<and> (\<forall>(t :: 'fs tally) t'.
               rename_one os pattern t path = Some t' \<and> skipped t' \<noteq> skipped t \<longrightarrow>
               skip_already_prefixed_var (app_of t)
               \<and> (\<exists>prefix. get_modification_prefix os (disk (app_of t)) path pattern = Inr prefix
                     \<and> should_skip_already_prefixed (snd (path_split path)) prefix))"
proof -
  note c = assms
  have a: "\<forall>fs prefix target.
            ensure_unique_path os fs (build_prefixed_name path prefix) = Some target \<longrightarrow>
              path_abspath cwd path \<noteq> path_abspath cwd target
              \<and> length (path_basename path) < length (path_basename target)"
  proof (intro allI impI conjI)
    fix fs prefix target
    assume h: "ensure_unique_path os fs (build_prefixed_name path prefix) = Some target"
    show "path_abspath cwd path \<noteq> path_abspath cwd target"
      using c h by (rule unique_target_differs)
    show "length (path_basename path) < length (path_basename target)"
      using h by (rule unique_target_basename(1))
  qed
  have b: "\<forall>(t :: 'fs tally) t'.
               rename_one os pattern t path = Some t' \<and> skipped t' \<noteq> skipped t \<longrightarrow>
               skip_already_prefixed_var (app_of t)
               \<and> (\<exists>prefix. get_modification_prefix os (disk (app_of t)) path pattern = Inr prefix
                     \<and> should_skip_already_prefixed (snd (path_split path)) prefix)"
  proof (intro allI impI)
    fix t :: "'fs tally" and t'
    assume "rename_one os pattern t path = Some t' \<and> skipped t' \<noteq> skipped t"
    then have h1: "rename_one os pattern t path = Some t'" and h2: "skipped t' \<noteq> skipped t"
      by simp_all
    show "skip_already_prefixed_var (app_of t)
               \<and> (\<exists>prefix. get_modification_prefix os (disk (app_of t)) path pattern = Inr prefix
                     \<and> should_skip_already_prefixed (snd (path_split path)) prefix)"
      using c h1 h2 by (rule rename_one_skipped)
  qed
  show ?thesis
    using a b by (rule conjI)
qed

theorem target_never_original_witness:
  "snd (path_splitext ''pics/b.JPG'') \<noteq> []
   \<and> ensure_unique_path pics_os [(''b.JPG'', march5), (''2024_b.JPG'', march5)]
        (build_prefixed_name ''pics/b.JPG'' ''2024'') = Some ''pics/2024_b-1.JPG''
   \<and> path_abspath ''/home/user'' ''pics/b.JPG'' \<noteq> path_abspath ''/home/user'' ''pics/2024_b-1.JPG''"
proof -
  have "\<forall>fs prefix target.
          ensure_unique_path pics_os fs (build_prefixed_name ''pics/b.JPG'' prefix) = Some target \<longrightarrow>
            path_abspath ''/home/user'' ''pics/b.JPG'' \<noteq> path_abspath ''/home/user'' target
            \<and> length (path_basename ''pics/b.JPG'') < length (path_basename target)"
    using target_never_original [OF witness_candidate, of pics_os "''/home/user''"]
    by (rule conjunct1)
  then have "ensure_unique_path pics_os [(''b.JPG'', march5), (''2024_b.JPG'', march5)]
               (build_prefixed_name ''pics/b.JPG'' ''2024'') = Some ''pics/2024_b-1.JPG'' \<longrightarrow>
            path_abspath ''/home/user'' ''pics/b.JPG'' \<noteq> path_abspath ''/home/user'' ''pics/2024_b-1.JPG''
            \<and> length (path_basename ''pics/b.JPG'') < length (path_basename ''pics/2024_b-1.JPG'')"
    by (elim allE)
  then have "path_abspath ''/home/user'' ''pics/b.JPG'' \<noteq> path_abspath ''/home/user'' ''pics/2024_b-1.JPG''"
    using witness_target by (elim impE conjE)
  then show ?thesis
    by (intro conjI witness_candidate witness_target)
qed

end
